theory Spec2Isabelle
  imports Main "HOL-Library.AList" "HOL-Library.Multiset"
begin

section \<open>Values exchanged with the peer\<close>

text \<open>
  An inbound frame is the result of \<^verbatim>\<open>JSON.parse\<close>.  An object is the list of its own
  properties in property order (keys distinct).  A number is given by the string that
  JavaScript prints for it, which is all the socket ever asks of a number: \<^verbatim>\<open>7\<close>,
  \<^verbatim>\<open>0.5\<close>, \<^verbatim>\<open>1e+21\<close>; zero of either sign is \<^verbatim>\<open>0\<close>.  Text that does not parse never
  reaches the classifier and is outside this development.
\<close>

datatype json =
    JNull
  | JBool bool
  | JNum string
  | JStr string
  | JArr "json list"
  | JObj "(string \<times> json) list"

datatype error = TypeError

text \<open>JavaScript truthiness, as tested by \<^verbatim>\<open>res.id && ...\<close>.\<close>

fun truthy :: "json \<Rightarrow> bool" where
  "truthy JNull = False"
| "truthy (JBool b) = b"
| "truthy (JNum n) = (n \<noteq> ''0'')"
| "truthy (JStr s) = (s \<noteq> [])"
| "truthy (JArr xs) = True"
| "truthy (JObj fs) = True"

fun join_comma :: "string list \<Rightarrow> string" where
  "join_comma [] = []"
| "join_comma [x] = x"
| "join_comma (x # y # ys) = x @ '','' @ join_comma (y # ys)"

text \<open>
  The property key that a value denotes when it is used in \<^verbatim>\<open>v in record\<close> or
  \<^verbatim>\<open>record[v]\<close>.  Strings are themselves, numbers, booleans and \<^verbatim>\<open>null\<close> their printed
  form.  An array joins the strings of its elements with commas, \<^verbatim>\<open>null\<close> elements
  giving the empty string.  An object is converted by its \<^verbatim>\<open>toString\<close>: the inherited
  one answers \<^verbatim>\<open>[object Object]\<close>; an own property of that name, which in a parsed
  value is never a function, leaves only \<^verbatim>\<open>valueOf\<close>, which does not give a primitive
  either, and the conversion raises \<^verbatim>\<open>TypeError\<close>.
\<close>

fun to_key :: "json \<Rightarrow> error + string" where
  "to_key JNull = Inr ''null''"
| "to_key (JBool b) = Inr (if b then ''true'' else ''false'')"
| "to_key (JNum n) = Inr n"
| "to_key (JStr s) = Inr s"
| "to_key (JArr xs) =
     (case those (map (\<lambda>x. if x = JNull then Some []
                            else (case to_key x of Inl e \<Rightarrow> None | Inr k \<Rightarrow> Some k)) xs) of
        None \<Rightarrow> Inl TypeError
      | Some ks \<Rightarrow> Inr (join_comma ks))"
| "to_key (JObj fs) =
     (if map_of fs ''toString'' = None then Inr ''[object Object]'' else Inl TypeError)"

text \<open>Reading a property: \<^verbatim>\<open>undefined\<close> is \<open>None\<close>.\<close>

fun field :: "string \<Rightarrow> json \<Rightarrow> json option" where
  "field k (JObj fs) = map_of fs k"
| "field k v = None"

definition is_primitive :: "json \<Rightarrow> bool" where
  "is_primitive v = (case v of JObj fs \<Rightarrow> False | JArr xs \<Rightarrow> False | _ \<Rightarrow> True)"

text \<open>
  \<^verbatim>\<open>k in v\<close> for the three names the classifier tests (\<^verbatim>\<open>id\<close>, \<^verbatim>\<open>result\<close>,
  \<^verbatim>\<open>action\<close>): on a parsed object or array it holds exactly for an own property, since
  no prototype carries these names; on a primitive the operator raises \<^verbatim>\<open>TypeError\<close>,
  which \<open>isLiveNotification\<close> makes explicit.
\<close>

definition own :: "string \<Rightarrow> json \<Rightarrow> bool" where
  "own k v = (field k v \<noteq> None)"

definition isLiveNotification :: "json \<Rightarrow> error + bool" where
  "isLiveNotification message =
     (if is_primitive message then Inl TypeError
      else Inr (\<not> own ''id'' message \<and> own ''result'' message \<and>
                (case field ''result'' message of
                   None \<Rightarrow> False
                 | Some r \<Rightarrow> \<not> is_primitive r \<and> own ''action'' r \<and> own ''id'' r \<and> own ''result'' r)))"

text \<open>
  The names that every object inherits from \<^verbatim>\<open>Object.prototype\<close>.  The records of the
  socket are plain objects: \<^verbatim>\<open>k in record\<close> holds for these names too, and
  \<^verbatim>\<open>record[k]\<close> then reads the inherited value, a function (for \<^verbatim>\<open>__proto__\<close> the
  prototype object), unless the record has an own property \<open>k\<close>.
\<close>

definition object_prototype_names :: "string list" where
  "object_prototype_names =
     [''constructor'', ''__defineGetter__'', ''__defineSetter__'', ''hasOwnProperty'',
      ''__lookupGetter__'', ''__lookupSetter__'', ''isPrototypeOf'', ''propertyIsEnumerable'',
      ''toString'', ''valueOf'', ''__proto__'', ''toLocaleString'']"

definition inherited :: "string \<Rightarrow> bool" where
  "inherited k = (k \<in> set object_prototype_names)"

section \<open>The socket and its environment\<close>

text \<open>
  Modelled from the spec: the enumeration \<^verbatim>\<open>WebsocketStatus\<close> of \<^verbatim>\<open>types.ts\<close>, which
  the specification gives as \<^verbatim>\<open>CLOSED\<close>, \<^verbatim>\<open>OPEN\<close>, \<^verbatim>\<open>RECONNECTING\<close>.
\<close>

datatype WebsocketStatus = OPEN | CLOSED | RECONNECTING

datatype hook = OnConnect | OnClose | OnError

text \<open>
  Everything the socket does to the outside world is appended to a trace: constructing a
  transport, handing a frame to the \<^verbatim>\<open>send\<close> of a transport, asking it to close,
  calling a listener callback or a status hook, arming the reconnection timer, an
  exception that escapes an event handler, and the rejection of a promise that nobody
  holds.  What a transport does with a frame it is handed is not part of the socket.
  Callbacks and hooks are the client's functions; they are identified by a number, and
  a call to one is an entry of the trace.  They are taken to return to the socket
  without raising and without calling back into it.
\<close>

datatype effect =
    NewWebSocket nat string
  | WsSend nat json
  | WsClose nat nat "string option"
  | Deliver nat json
  | HookCall hook
  | SetTimeout nat
  | Uncaught error
  | Unhandled error

text \<open>
  Promises are named by the role in which the class creates them: the readiness promise
  of the \<open>open\<close> call that built transport \<open>w\<close>, the promise stored in \<^verbatim>\<open>closed\<close> by a
  \<open>close\<close> call, and the promise that \<open>send\<close> hands back.  A promise absent from the store
  is pending.
\<close>

datatype promise = ReadyP nat | ClosedP nat | ReplyP nat

datatype settled = Fulfilled "json option" | Rejected

text \<open>
  An \<^verbatim>\<open>async\<close> method runs up to its \<^verbatim>\<open>await\<close> and is then parked as a task; the task
  holds what the rest of the method still needs.
\<close>

datatype task =
    SendAwaitReady "nat option" nat string "json list"
  | ListenAwaitAll string
  | KillAwaitSend string nat
  | CloseAwaitClosed nat

record socket =
  url :: string
  hooks :: "hook set"
  ws :: "nat option"
  status :: WebsocketStatus
  queue :: "string \<rightharpoonup> nat"
  liveQueue :: "(string \<times> nat list) list"
  unprocessedLiveResponses :: "string \<rightharpoonup> json list"
  ready :: "nat option"
  closed :: "nat option"
  resolveClosed :: "nat option"
  socketClosureReason :: "nat \<rightharpoonup> string"
  resolved :: "nat \<rightharpoonup> bool"
  promises :: "promise \<rightharpoonup> settled"
  tasks :: "task list"
  timers :: nat
  fresh :: nat
  trace :: "effect list"

text \<open>
  The fields up to \<open>socketClosureReason\<close> are those of the class.  The three records
  \<open>queue\<close>, \<open>liveQueue\<close> and \<open>unprocessedLiveResponses\<close> hold their own properties;
  what \<^verbatim>\<open>in\<close> and a property read find beyond those, the names every object inherits,
  is written out where the methods use them.  \<open>queue\<close> maps a request identifier to the
  promise its continuation resolves.  \<open>liveQueue\<close> keeps insertion order, which
  \<^verbatim>\<open>Object.values\<close> observes.  \<open>resolved w\<close> is the local flag of the \<open>open\<close> call that
  created transport \<open>w\<close>, defined exactly for the transports created so far.  \<open>fresh\<close>
  is the next unused object identity and \<open>timers\<close> counts armed timers.

  The constructor receives the endpoint already rewritten by \<^verbatim>\<open>processUrl\<close>.
\<close>

definition SurrealSocket :: "string \<Rightarrow> hook set \<Rightarrow> socket" where
  "SurrealSocket endpoint hs =
     \<lparr> url = endpoint @ ''/rpc'', hooks = hs, ws = None, status = CLOSED,
       queue = Map.empty, liveQueue = [], unprocessedLiveResponses = Map.empty,
       ready = None, closed = None, resolveClosed = None,
       socketClosureReason = [1000 \<mapsto> ''CLOSE_NORMAL''],
       resolved = Map.empty, promises = Map.empty, tasks = [], timers = 0, fresh = 0,
       trace = [] \<rparr>"

definition emit :: "effect list \<Rightarrow> socket \<Rightarrow> socket" where
  "emit es s = s\<lparr>trace := trace s @ es\<rparr>"

text \<open>\<^verbatim>\<open>this.hooks.onX?.()\<close>\<close>

definition call_hook :: "hook \<Rightarrow> socket \<Rightarrow> socket" where
  "call_hook h s = (if h \<in> hooks s then emit [HookCall h] s else s)"

text \<open>Settling a promise a second time has no effect.\<close>

definition settle :: "promise \<Rightarrow> settled \<Rightarrow> socket \<Rightarrow> socket" where
  "settle p v s =
     (if promises s p = None then s\<lparr>promises := (promises s)(p \<mapsto> v)\<rparr> else s)"

definition park :: "task \<Rightarrow> socket \<Rightarrow> socket" where
  "park t s = s\<lparr>tasks := tasks s @ [t]\<rparr>"

subsection \<open>Order of \<^verbatim>\<open>Object.values\<close>\<close>

text \<open>
  Own properties are enumerated with the array indices first, in ascending numeric
  order, then the other string keys in insertion order.  An array index is the canonical
  decimal form of an integer below \<open>2^32 - 1\<close>.
\<close>

definition is_digit :: "char \<Rightarrow> bool" where
  "is_digit c = (48 \<le> (of_char c :: nat) \<and> (of_char c :: nat) \<le> 57)"

definition index_value :: "string \<Rightarrow> nat" where
  "index_value k = foldl (\<lambda>n c. 10 * n + (of_char c - 48)) 0 k"

definition is_array_index :: "string \<Rightarrow> bool" where
  "is_array_index k =
     (k \<noteq> [] \<and> list_all is_digit k \<and> (k = ''0'' \<or> hd k \<noteq> CHR ''0'')
      \<and> index_value k < 4294967295)"

definition object_values :: "(string \<times> 'a) list \<Rightarrow> 'a list" where
  "object_values al =
     map snd (sort_key (\<lambda>kv. index_value (fst kv)) (filter (\<lambda>kv. is_array_index (fst kv)) al)
              @ filter (\<lambda>kv. \<not> is_array_index (fst kv)) al)"

section \<open>Transport lifecycle\<close>

definition socket_closed_event :: json where
  "socket_closed_event = JObj [(''action'', JStr ''CLOSE''), (''detail'', JStr ''SOCKET_CLOSED'')]"

definition query_killed_event :: json where
  "query_killed_event = JObj [(''action'', JStr ''CLOSE''), (''detail'', JStr ''QUERY_KILLED'')]"

text \<open>
  \<open>close\<close> up to its \<^verbatim>\<open>await this.closed\<close>.  The promise it creates is pending; its
  resolver is stored in \<open>resolveClosed\<close>.
\<close>

definition close :: "nat \<Rightarrow> socket \<Rightarrow> socket" where
  "close reason s =
     (let p = fresh s;
          s1 = s\<lparr>status := CLOSED, closed := Some p, resolveClosed := Some p,
                 promises := (promises s)(ClosedP p := None), fresh := Suc p\<rparr>;
          s2 = (case ws s1 of
                  None \<Rightarrow> s1
                | Some w \<Rightarrow> emit [WsClose w reason (socketClosureReason s1 reason)] s1);
          s3 = call_hook OnClose s2
      in park (CloseAwaitClosed p) s3)"

text \<open>\<open>open\<close>: close whatever is there, build a new transport and attach the listeners.\<close>

definition open_socket :: "socket \<Rightarrow> socket" where
  "open_socket s =
     (let s1 = close 1000 s;
          w = fresh s1;
          s2 = emit [NewWebSocket w (url s1)] s1
      in s2\<lparr>resolved := (resolved s2)(w \<mapsto> False),
             promises := (promises s2)(ReadyP w := None),
             ready := Some w, ws := Some w, fresh := Suc w\<rparr>)"

text \<open>The three lifecycle listeners of transport \<open>w\<close>.\<close>

definition on_open :: "nat \<Rightarrow> socket \<Rightarrow> socket" where
  "on_open w s =
     (let s1 = s\<lparr>status := OPEN\<rparr>;
          s2 = (if resolved s1 w = Some True then s1
                else settle (ReadyP w) (Fulfilled None) (s1\<lparr>resolved := (resolved s1)(w \<mapsto> True)\<rparr>))
      in call_hook OnConnect s2)"

definition on_error :: "nat \<Rightarrow> socket \<Rightarrow> socket" where
  "on_error w s =
     (let s1 = s\<lparr>status := CLOSED\<rparr>
      in if resolved s1 w = Some True then s1
         else call_hook OnError
                (settle (ReadyP w) Rejected (s1\<lparr>resolved := (resolved s1)(w \<mapsto> True)\<rparr>)))"

definition on_close :: "socket \<Rightarrow> socket" where
  "on_close s =
     (let s1 = (case resolveClosed s of
                  None \<Rightarrow> s
                | Some p \<Rightarrow> settle (ClosedP p) (Fulfilled None) s);
          s2 = emit (concat (map (\<lambda>query. map (\<lambda>cb. Deliver cb socket_closed_event) query)
                                 (object_values (liveQueue s1)))) s1;
          s3 = s2\<lparr>queue := Map.empty, liveQueue := [],
                  unprocessedLiveResponses := Map.empty\<rparr>
      in if status s3 \<noteq> CLOSED
         then call_hook OnClose
                ((emit [SetTimeout 2500] (s3\<lparr>status := RECONNECTING\<rparr>))\<lparr>timers := Suc (timers s3)\<rparr>)
         else s3)"

section \<open>Inbound frames\<close>

text \<open>
  A method ends by returning or by raising; either way it leaves a state.  For an
  \<^verbatim>\<open>async\<close> method, raising means that the promise it returned is rejected.
\<close>

type_synonym outcome = "error option \<times> socket"

text \<open>
  \<open>handleLiveBatch\<close> receives the \<^verbatim>\<open>result\<close> object of a notification.  It is an
  \<^verbatim>\<open>async\<close> method whose only \<^verbatim>\<open>await\<close> is its last action, so all of its effects on
  the socket happen within the call.  \<^verbatim>\<open>this.liveQueue[queryUuid]\<close> converts the
  identifier to a key, which may raise.  For an inherited name without a list of its own
  the value read is truthy and has no \<^verbatim>\<open>map\<close>: the call raises and buffers nothing.
\<close>

definition handleLiveBatch :: "(string \<times> json) list \<Rightarrow> socket \<Rightarrow> outcome" where
  "handleLiveBatch res s =
     (case (case map_of res ''id'' of None \<Rightarrow> Inr ''undefined'' | Some v \<Rightarrow> to_key v) of
        Inl e \<Rightarrow> (Some e, s)
      | Inr queryUuid \<Rightarrow>
          (let message = JObj (AList.delete ''id'' res)
           in case map_of (liveQueue s) queryUuid of
                Some cbs \<Rightarrow> (None, emit (map (\<lambda>cb. Deliver cb message) cbs) s)
              | None \<Rightarrow>
                  if inherited queryUuid then (Some TypeError, s)
                  else
                    (None,
                     s\<lparr>unprocessedLiveResponses :=
                         (unprocessedLiveResponses s)
                           (queryUuid \<mapsto>
                              (case unprocessedLiveResponses s queryUuid of
                                 None \<Rightarrow> []
                               | Some b \<Rightarrow> b)
                              @ [message])\<rparr>)))"

text \<open>
  \<^verbatim>\<open>this.queue[res.id](res)\<close> where \<open>k\<close>, the key of \<^verbatim>\<open>res.id\<close>, is an inherited name
  and the map has no entry of its own for it: the inherited value is called with the
  frame as its argument.  \<^verbatim>\<open>__proto__\<close> is not a function; \<^verbatim>\<open>__defineGetter__\<close> and
  \<^verbatim>\<open>__defineSetter__\<close> want a function as second argument; \<^verbatim>\<open>hasOwnProperty\<close>,
  \<^verbatim>\<open>propertyIsEnumerable\<close>, \<^verbatim>\<open>__lookupGetter__\<close> and \<^verbatim>\<open>__lookupSetter__\<close> convert the
  frame to a key; \<^verbatim>\<open>toLocaleString\<close> calls \<^verbatim>\<open>toString\<close> of the map, which is the
  continuation stored under that name if there is one, called without a value; the
  others return.  The \<^verbatim>\<open>delete\<close> that follows removes nothing.
\<close>

definition call_inherited :: "string \<Rightarrow> json \<Rightarrow> socket \<Rightarrow> outcome" where
  "call_inherited k res s =
     (if k \<in> set [''__proto__'', ''__defineGetter__'', ''__defineSetter__'']
      then (Some TypeError, s)
      else if k \<in> set [''hasOwnProperty'', ''propertyIsEnumerable'', ''__lookupGetter__'',
                         ''__lookupSetter__'']
      then (case to_key res of Inl e \<Rightarrow> (Some e, s) | Inr k' \<Rightarrow> (None, s))
      else if k = ''toLocaleString''
      then (case queue s ''toString'' of
              None \<Rightarrow> (None, s)
            | Some p \<Rightarrow> (None, settle (ReplyP p) (Fulfilled None) s))
      else (None, s))"

text \<open>
  The message listener.  It does not await \<open>handleLiveBatch\<close>: when that raises, the
  listener has returned and the rejection goes to the host.
\<close>

definition unawaited :: "outcome \<Rightarrow> socket" where
  "unawaited r = (case r of (None, s') \<Rightarrow> s' | (Some e, s') \<Rightarrow> emit [Unhandled e] s')"

definition on_message :: "json \<Rightarrow> socket \<Rightarrow> outcome" where
  "on_message res s =
     (case isLiveNotification res of
        Inl e \<Rightarrow> (Some e, s)
      | Inr True \<Rightarrow>
          (case field ''result'' res of
             Some (JObj r) \<Rightarrow> (None, unawaited (handleLiveBatch r s))
           | _ \<Rightarrow> (None, s))
      | Inr False \<Rightarrow>
          (case field ''id'' res of
             None \<Rightarrow> (None, s)
           | Some i \<Rightarrow>
               (if truthy i then
                  (case to_key i of
                     Inl e \<Rightarrow> (Some e, s)
                   | Inr k \<Rightarrow>
                       (case queue s k of
                          Some p \<Rightarrow>
                            (None,
                             (settle (ReplyP p) (Fulfilled (Some res)) s)
                               \<lparr>queue := (queue s)(k := None)\<rparr>)
                        | None \<Rightarrow>
                            if inherited k then call_inherited k res s else (None, s)))
                else (None, s))))"

text \<open>An exception leaving the listener is reported by the host.\<close>

definition deliver_message :: "json \<Rightarrow> socket \<Rightarrow> socket" where
  "deliver_message res s =
     (case on_message res s of (None, s') \<Rightarrow> s' | (Some e, s') \<Rightarrow> emit [Uncaught e] s')"


section \<open>Requests and subscriptions\<close>

text \<open>
  \<open>send\<close> up to \<^verbatim>\<open>await this.ready\<close>: the value of \<open>ready\<close> at the call is what is
  awaited.  The promise handed to the caller is the one the continuation will resolve.
\<close>

definition send :: "string \<Rightarrow> json list \<Rightarrow> socket \<Rightarrow> socket" where
  "send method params s =
     park (SendAwaitReady (ready s) (fresh s) method params)
       (s\<lparr>promises := (promises s)(ReplyP (fresh s) := None), fresh := Suc (fresh s)\<rparr>)"

text \<open>
  Modelled from the spec: \<^verbatim>\<open>getIncrementalID\<close>, a function of another module that is
  not among the sources; the specification calls it an incrementing-identifier
  generator.  It is taken to return the decimal numeral of a counter; the value \<open>n\<close> of
  the counter is a parameter of the rest of \<open>send\<close>.
\<close>

function digits :: "nat \<Rightarrow> string" where
  "digits n =
     (if n < 10 then [''0123456789'' ! n]
      else digits (n div 10) @ [''0123456789'' ! (n mod 10)])"
  by pat_completeness auto
termination
  by (relation "measure id") auto

declare digits.simps [simp del]

definition send_frame :: "nat \<Rightarrow> string \<Rightarrow> json list \<Rightarrow> json" where
  "send_frame n method params =
     JObj [(''id'', JStr (digits n)), (''method'', JStr method), (''params'', JArr params)]"

definition send_rest :: "nat \<Rightarrow> string \<Rightarrow> json list \<Rightarrow> nat \<Rightarrow> socket \<Rightarrow> socket" where
  "send_rest fut method params n s =
     (let s1 = s\<lparr>queue := (queue s)(digits n \<mapsto> fut)\<rparr>
      in case ws s1 of
           None \<Rightarrow> s1
         | Some w \<Rightarrow> emit [WsSend w (send_frame n method params)] s1)"

text \<open>
  \<open>listenLive\<close> up to \<^verbatim>\<open>await Promise.all\<close>.  For an inherited name without a list of
  its own, \<^verbatim>\<open>in\<close> holds, no list is created, and the value read has no \<^verbatim>\<open>push\<close>: the
  call raises.  After the registration, the buffer is read; an inherited value there has
  no \<^verbatim>\<open>map\<close>.
\<close>

definition listenLive_replay :: "string \<Rightarrow> nat \<Rightarrow> socket \<Rightarrow> outcome" where
  "listenLive_replay queryUuid callback s =
     (case unprocessedLiveResponses s queryUuid of
        Some b \<Rightarrow> (None, park (ListenAwaitAll queryUuid) (emit (map (Deliver callback) b) s))
      | None \<Rightarrow>
          if inherited queryUuid then (Some TypeError, s)
          else (None, park (ListenAwaitAll queryUuid) s))"

definition listenLive :: "string \<Rightarrow> nat \<Rightarrow> socket \<Rightarrow> outcome" where
  "listenLive queryUuid callback s =
     (case map_of (liveQueue s) queryUuid of
        None \<Rightarrow>
          if inherited queryUuid then (Some TypeError, s)
          else listenLive_replay queryUuid callback
                 (s\<lparr>liveQueue := AList.update queryUuid [callback] (liveQueue s)\<rparr>)
      | Some cbs \<Rightarrow>
          listenLive_replay queryUuid callback
            (s\<lparr>liveQueue := AList.update queryUuid (cbs @ [callback]) (liveQueue s)\<rparr>))"

text \<open>
  \<open>kill\<close> up to \<^verbatim>\<open>await this.send(...)\<close>; the call of \<open>send\<close> is part of it.  For an
  inherited name without a list of its own, \<^verbatim>\<open>in\<close> holds and the value read has no
  \<^verbatim>\<open>forEach\<close>: the call raises before \<open>send\<close> is called.
\<close>

definition kill_send :: "string \<Rightarrow> socket \<Rightarrow> socket" where
  "kill_send queryUuid s =
     park (KillAwaitSend queryUuid (fresh s)) (send ''kill'' [JStr queryUuid] s)"

definition kill :: "string \<Rightarrow> socket \<Rightarrow> outcome" where
  "kill queryUuid s =
     (case map_of (liveQueue s) queryUuid of
        None \<Rightarrow>
          if inherited queryUuid then (Some TypeError, s) else (None, kill_send queryUuid s)
      | Some cbs \<Rightarrow>
          (None,
           kill_send queryUuid
             ((emit (map (\<lambda>cb. Deliver cb query_killed_event) cbs) s)
                \<lparr>liveQueue := AList.delete queryUuid (liveQueue s)\<rparr>)))"

text \<open>
  Running the rest of a parked method.  \<open>None\<close> means that the promise it awaits is
  still pending.  A rejected promise ends an \<^verbatim>\<open>async\<close> method at the \<^verbatim>\<open>await\<close>.
\<close>

fun resume :: "task \<Rightarrow> nat \<Rightarrow> socket \<Rightarrow> socket option" where
  "resume (SendAwaitReady r fut method params) n s =
     (case r of
        None \<Rightarrow> Some (send_rest fut method params n s)
      | Some w \<Rightarrow>
          (case promises s (ReadyP w) of
             None \<Rightarrow> None
           | Some Rejected \<Rightarrow> Some (settle (ReplyP fut) Rejected s)
           | Some (Fulfilled v) \<Rightarrow> Some (send_rest fut method params n s)))"
| "resume (ListenAwaitAll queryUuid) n s =
     Some (s\<lparr>unprocessedLiveResponses := (unprocessedLiveResponses s)(queryUuid := None)\<rparr>)"
| "resume (KillAwaitSend queryUuid fut) n s =
     (case promises s (ReplyP fut) of
        None \<Rightarrow> None
      | Some Rejected \<Rightarrow> Some s
      | Some (Fulfilled v) \<Rightarrow>
          Some (s\<lparr>unprocessedLiveResponses := (unprocessedLiveResponses s)(queryUuid := None)\<rparr>))"
| "resume (CloseAwaitClosed p) n s =
     (case promises s (ClosedP p) of None \<Rightarrow> None | Some v \<Rightarrow> Some s)"

section \<open>Runs of the socket\<close>

text \<open>
  What can happen to a socket: a call of one of its methods, an event of a transport that
  exists, the reconnection timer going off, and a parked method continuing (with the
  number that the identifier generator then returns).  \<open>step\<close> is \<open>None\<close> where the event
  cannot happen in the state.  A method call that raises leaves the state it had reached.
\<close>

datatype event =
    Open
  | Close nat
  | Send string "json list"
  | ListenLive string nat
  | Kill string
  | WsOpened nat
  | WsFailed nat
  | WsClosed nat
  | WsMessage nat json
  | Timeout
  | Resume task nat

fun step :: "event \<Rightarrow> socket \<Rightarrow> socket option" where
  "step Open s = Some (open_socket s)"
| "step (Close reason) s = Some (close reason s)"
| "step (Send method params) s = Some (send method params s)"
| "step (ListenLive queryUuid callback) s = Some (snd (listenLive queryUuid callback s))"
| "step (Kill queryUuid) s = Some (snd (kill queryUuid s))"
| "step (WsOpened w) s = (if resolved s w = None then None else Some (on_open w s))"
| "step (WsFailed w) s = (if resolved s w = None then None else Some (on_error w s))"
| "step (WsClosed w) s = (if resolved s w = None then None else Some (on_close s))"
| "step (WsMessage w res) s =
     (if resolved s w = None then None else Some (deliver_message res s))"
| "step Timeout s =
     (if timers s = 0 then None else Some (open_socket (s\<lparr>timers := timers s - 1\<rparr>)))"
| "step (Resume t n) s =
     (if t \<in> set (tasks s) then resume t n (s\<lparr>tasks := remove1 t (tasks s)\<rparr>) else None)"

fun run :: "event list \<Rightarrow> socket \<Rightarrow> socket option" where
  "run [] s = Some s"
| "run (e # es) s = (case step e s of None \<Rightarrow> None | Some s' \<Rightarrow> run es s')"

section \<open>Vocabulary of the properties\<close>

text \<open>What a stretch of execution from \<open>s\<close> to \<open>s'\<close> added to the trace.\<close>

definition new_effects :: "socket \<Rightarrow> socket \<Rightarrow> effect list" where
  "new_effects s s' = drop (length (trace s)) (trace s')"

text \<open>
  The shape of a push notification in the words of the specification: no top-level
  \<^verbatim>\<open>id\<close>, a \<^verbatim>\<open>result\<close> that is a non-null object, and in that object the fields
  \<^verbatim>\<open>action\<close>, \<^verbatim>\<open>id\<close> and \<^verbatim>\<open>result\<close>.
\<close>

definition push_notification_shape :: "json \<Rightarrow> bool" where
  "push_notification_shape res =
     (case res of
        JObj fs \<Rightarrow>
          map_of fs ''id'' = None \<and>
          (case map_of fs ''result'' of
             Some (JObj r) \<Rightarrow>
               map_of r ''action'' \<noteq> None \<and> map_of r ''id'' \<noteq> None \<and> map_of r ''result'' \<noteq> None
           | _ \<Rightarrow> False)
      | _ \<Rightarrow> False)"

text \<open>
  A push notification names its subscription in \<^verbatim>\<open>result.id\<close>, if that value converts
  to a key; its payload is the \<^verbatim>\<open>result\<close> object without that field.
\<close>

definition notification_of :: "json \<Rightarrow> (string \<times> json) option" where
  "notification_of res =
     (if push_notification_shape res then
        (case field ''result'' res of
           Some (JObj r) \<Rightarrow>
             (case map_of r ''id'' of
                Some v \<Rightarrow>
                  (case to_key v of
                     Inr k \<Rightarrow> Some (k, JObj (AList.delete ''id'' r))
                   | Inl e \<Rightarrow> None)
              | None \<Rightarrow> None)
         | _ \<Rightarrow> None)
      else None)"


text \<open>The early-arrival buffer and the listener list of a subscription, empty when absent.\<close>

definition buffer :: "socket \<Rightarrow> string \<Rightarrow> json list" where
  "buffer s S = (case unprocessedLiveResponses s S of None \<Rightarrow> [] | Some b \<Rightarrow> b)"

definition listeners :: "socket \<Rightarrow> string \<Rightarrow> nat list" where
  "listeners s S = (case map_of (liveQueue s) S of None \<Rightarrow> [] | Some cbs \<Rightarrow> cbs)"

text \<open>
  A frame carries the identifier \<open>i\<close> when its top-level \<^verbatim>\<open>id\<close> is truthy and denotes
  the key \<open>i\<close>.
\<close>

definition carries :: "string \<Rightarrow> json \<Rightarrow> bool" where
  "carries i res =
     (case field ''id'' res of None \<Rightarrow> False | Some v \<Rightarrow> truthy v \<and> to_key v = Inr i)"

text \<open>The frames that a run delivers.\<close>

fun inbound :: "event list \<Rightarrow> json list" where
  "inbound [] = []"
| "inbound (WsMessage w res # es) = res # inbound es"
| "inbound (e # es) = inbound es"

text \<open>
  An event keeps the entry of the identifier \<open>k\<close> in the pending-request map when it is
  not a close event of a transport, whose listener empties the map, and not the
  continuation of a \<open>send\<close> that the generator gives the identifier \<open>k\<close> again.
\<close>

fun keeps_entry :: "string \<Rightarrow> event \<Rightarrow> bool" where
  "keeps_entry k (WsClosed w) = False"
| "keeps_entry k (Resume (SendAwaitReady r fut method params) n) = (digits n \<noteq> k)"
| "keeps_entry k e = True"

text \<open>
  The promises that the parked \<open>send\<close> calls will hand to the pending-request map.
\<close>

fun send_futures :: "task list \<Rightarrow> nat list" where
  "send_futures [] = []"
| "send_futures (SendAwaitReady r fut method params # ts) = fut # send_futures ts"
| "send_futures (t # ts) = send_futures ts"

text \<open>
  What every state reached from a new socket satisfies: \<open>ready\<close> and \<open>ws\<close> are set
  together, no transport exists before the first \<open>open\<close>, the promises in the
  pending-request map are older than \<open>fresh\<close>, the promises of the parked \<open>send\<close> calls
  are older than \<open>fresh\<close>, pending, different from one another and not yet in the map,
  and no listener list is empty.
\<close>

definition wf :: "socket \<Rightarrow> bool" where
  "wf s =
     (ready s = ws s
      \<and> (ws s = None \<longrightarrow> resolved s = Map.empty)
      \<and> (\<forall>k p. queue s k = Some p \<longrightarrow> p < fresh s)
      \<and> (\<forall>fut \<in> set (send_futures (tasks s)).
            fut < fresh s \<and> promises s (ReplyP fut) = None \<and> (\<forall>k. queue s k \<noteq> Some fut))
      \<and> distinct (send_futures (tasks s))
      \<and> list_all (\<lambda>kv. snd kv \<noteq> []) (liveQueue s))"

text \<open>
  A promise handed out by \<open>send\<close> that is pending, is registered at most under the
  identifiers in \<open>K\<close>, and belongs to no parked \<open>send\<close>.
\<close>

definition unanswered :: "nat \<Rightarrow> string set \<Rightarrow> socket \<Rightarrow> bool" where
  "unanswered fut K s =
     (promises s (ReplyP fut) = None
      \<and> (\<forall>k. queue s k = Some fut \<longrightarrow> k \<in> K)
      \<and> fut \<notin> set (send_futures (tasks s))
      \<and> fut < fresh s)"

subsection \<open>Example states\<close>

text \<open>
  A new socket with close and error hooks; the same after \<open>open\<close>, with its transport
  (handle 1) still connecting; with the transport established; and then with four
  listeners on three subscriptions, two of them under keys that are array indices.
\<close>

definition demo_new :: socket where
  "demo_new = SurrealSocket ''ws://db:8000'' {OnClose, OnError}"

definition demo_connecting :: socket where
  "demo_connecting = open_socket demo_new"

definition demo_open :: socket where
  "demo_open = on_open 1 (open_socket (SurrealSocket ''ws://db:8000'' {OnClose, OnError}))"

definition demo_listening :: socket where
  "demo_listening =
     snd (listenLive ''9'' 14 (snd (listenLive ''10'' 13
       (snd (listenLive ''q'' 12 (snd (listenLive ''q'' 11 demo_open)))))))"






text \<open>
  What the new socket has become after \<open>close\<close>, \<open>open\<close>, and the opening and the closing
  of the transport that \<open>open\<close> built (handle 2).
\<close>

definition demo_reclosed :: socket where
  "demo_reclosed = on_close (on_open 2 (open_socket (close 1000 demo_new)))"

text \<open>
  The connecting socket after a \<open>send\<close> was parked and the transport then opened, or
  failed; and the new socket after a \<open>send\<close> that ran without any transport, at once and
  after a later connection.
\<close>

definition demo_sent :: socket where
  "demo_sent = on_open 1 (send ''ping'' [] demo_connecting)"

definition demo_failed :: socket where
  "demo_failed = on_error 1 (send ''ping'' [] demo_connecting)"

text \<open>
  The established socket after the parked \<open>send\<close> has continued with the identifier
  \<^verbatim>\<open>7\<close>; a reply to that request; and what the socket has become when the transport
  has then closed, the reconnection timer has gone off, the new transport (handle 4) is
  established and the reply arrives on it.
\<close>

definition demo_registered :: socket where
  "demo_registered = send_rest 2 ''ping'' [] 7 (demo_sent\<lparr>tasks := [CloseAwaitClosed 0]\<rparr>)"

definition demo_reply :: json where
  "demo_reply = JObj [(''id'', JStr ''7''), (''result'', JStr ''pong'')]"

definition demo_lost :: socket where
  "demo_lost =
     deliver_message demo_reply
       (on_open 4 (open_socket ((on_close demo_registered)\<lparr>timers := 0\<rparr>)))"



section \<open>Basic facts\<close>

lemmas ops = SurrealSocket_def open_socket_def close_def on_open_def on_error_def on_close_def
  emit_def call_hook_def settle_def park_def listenLive_def listenLive_replay_def kill_def
  kill_send_def send_def send_rest_def send_frame_def new_effects_def Let_def

lemma new_effects_append: "trace s' = trace s @ es \<Longrightarrow> new_effects s s' = es"
  by (simp add: new_effects_def)

lemma mset_concat_sum: "mset (concat xss) = sum_mset (image_mset mset (mset xss))"
  by (induction xss) simp_all

lemma mset_object_values: "mset (object_values al) = mset (map snd al)"
proof -
  let ?P = "\<lambda>kv::string \<times> 'a. is_array_index (fst kv)"
  have "mset (sort_key (\<lambda>kv. index_value (fst kv)) (filter ?P al) @ filter (\<lambda>kv. \<not> ?P kv) al)
        = filter_mset ?P (mset al) + filter_mset (\<lambda>kv. \<not> ?P kv) (mset al)"
    by simp
  also have "\<dots> = mset al"
    by (rule multiset_partition [symmetric])
  finally have *: "mset (sort_key (\<lambda>kv. index_value (fst kv)) (filter ?P al)
                    @ filter (\<lambda>kv. \<not> ?P kv) al) = mset al" .
  show ?thesis
    unfolding object_values_def mset_map by (simp only: *)
qed

lemma mset_concat_object_values:
  "mset (concat (object_values al)) = mset (concat (map snd al))"
  by (simp only: mset_concat_sum mset_object_values)

subsection \<open>\<open>close\<close> and the close listener\<close>

lemma close_status: "status (close reason s) = CLOSED"
  and close_timers: "timers (close reason s) = timers s"
  and close_liveQueue: "liveQueue (close reason s) = liveQueue s"
  by (simp_all add: close_def Let_def park_def call_hook_def emit_def split: option.splits)

lemma trace_close:
  "trace (close reason s) = trace s
     @ (case ws s of None \<Rightarrow> [] | Some w \<Rightarrow> [WsClose w reason (socketClosureReason s reason)])
     @ (if OnClose \<in> hooks s then [HookCall OnClose] else [])"
  by (simp add: close_def Let_def park_def call_hook_def emit_def split: option.splits)

lemma trace_on_close:
  "trace (on_close s) = trace s
     @ map (\<lambda>cb. Deliver cb socket_closed_event) (concat (object_values (liveQueue s)))
     @ (if status s \<noteq> CLOSED
        then SetTimeout 2500 # (if OnClose \<in> hooks s then [HookCall OnClose] else [])
        else [])"
  by (simp add: on_close_def Let_def emit_def call_hook_def settle_def map_concat comp_def
           split: option.splits)

lemma status_on_close:
  "status (on_close s) = (if status s \<noteq> CLOSED then RECONNECTING else CLOSED)"
  by (simp add: on_close_def Let_def emit_def call_hook_def settle_def split: option.splits)

lemma timers_on_close:
  "timers (on_close s) = (if status s \<noteq> CLOSED then Suc (timers s) else timers s)"
  by (simp add: on_close_def Let_def emit_def call_hook_def settle_def split: option.splits)

lemma new_on_close:
  "new_effects s (on_close s) =
     map (\<lambda>cb. Deliver cb socket_closed_event) (concat (object_values (liveQueue s)))
     @ (if status s \<noteq> CLOSED
        then SetTimeout 2500 # (if OnClose \<in> hooks s then [HookCall OnClose] else [])
        else [])"
  by (rule new_effects_append) (rule trace_on_close)

lemma new_close:
  "new_effects s (close reason s) =
     (case ws s of None \<Rightarrow> [] | Some w \<Rightarrow> [WsClose w reason (socketClosureReason s reason)])
     @ (if OnClose \<in> hooks s then [HookCall OnClose] else [])"
  by (rule new_effects_append) (rule trace_close)

lemma new_close_on_close:
  "new_effects s (on_close (close reason s)) =
     (case ws s of None \<Rightarrow> [] | Some w \<Rightarrow> [WsClose w reason (socketClosureReason s reason)])
     @ (if OnClose \<in> hooks s then [HookCall OnClose] else [])
     @ map (\<lambda>cb. Deliver cb socket_closed_event) (concat (object_values (liveQueue s)))"
  by (rule new_effects_append)
     (simp add: trace_on_close close_status close_liveQueue trace_close)

lemma step_timeout_on_close:
  "status s \<noteq> CLOSED \<Longrightarrow>
     step Timeout (on_close s) = Some (open_socket ((on_close s)\<lparr>timers := timers s\<rparr>))"
  by (simp add: timers_on_close)

subsection \<open>The example states, evaluated\<close>

lemma not_inherited_examples:
  "\<not> inherited ''q''" "\<not> inherited ''9''" "\<not> inherited ''10''" "inherited ''constructor''"
  "inherited ''__proto__''"
  by (simp_all add: inherited_def object_prototype_names_def)

lemma demo_listening_liveQueue:
  "liveQueue demo_listening = [(''q'', [11, 12]), (''10'', [13]), (''9'', [14])]"
  by (simp add: demo_listening_def demo_open_def ops not_inherited_examples)

lemma demo_listening_fields:
  "status demo_listening = OPEN" "hooks demo_listening = {OnClose, OnError}"
  "trace demo_listening = [HookCall OnClose, NewWebSocket 1 ''ws://db:8000/rpc'']"
  "timers demo_listening = 0" "resolved demo_listening 1 = Some True"
  "ws demo_listening = Some 1"
  by (simp_all add: demo_listening_def demo_open_def ops not_inherited_examples)

lemma demo_keys:
  "is_array_index ''9''" "is_array_index ''10''" "\<not> is_array_index ''q''"
  "index_value ''9'' = 9" "index_value ''10'' = 10"
  by (simp_all add: is_array_index_def index_value_def is_digit_def)

lemma demo_object_values:
  "object_values [(''q'', [11, 12]), (''10'', [13]), (''9'', [14::nat])] = [[14], [13], [11, 12]]"
  by (simp add: object_values_def demo_keys)

section \<open>Transport closure\<close>

text \<open>
  C1.  Whatever the state, the close listener of a transport calls every callback of
  every listener list with the terminal event \<^verbatim>\<open>{action: CLOSE, detail: SOCKET_CLOSED}\<close>,
  once per registration (the calls are those of the lists in \<^verbatim>\<open>Object.values\<close> order,
  which is a rearrangement of the lists), before anything else it adds to the trace, and
  when it returns the pending-request map, the listener map and the early-arrival buffer
  are empty.
\<close>

theorem close_event_notifies_and_clears:
  "trace (on_close s) = trace s
     @ map (\<lambda>cb. Deliver cb (JObj [(''action'', JStr ''CLOSE''), (''detail'', JStr ''SOCKET_CLOSED'')]))
         (concat (object_values (liveQueue s)))
     @ (if status s \<noteq> CLOSED
        then SetTimeout 2500 # (if OnClose \<in> hooks s then [HookCall OnClose] else [])
        else [])
   \<and> mset (concat (object_values (liveQueue s))) = mset (concat (map snd (liveQueue s)))
   \<and> queue (on_close s) = Map.empty
   \<and> liveQueue (on_close s) = []
   \<and> unprocessedLiveResponses (on_close s) = Map.empty"
proof -
  have "queue (on_close s) = Map.empty" "liveQueue (on_close s) = []"
    "unprocessedLiveResponses (on_close s) = Map.empty"
    by (simp_all add: on_close_def Let_def emit_def call_hook_def)
  then show ?thesis
    using trace_on_close [of s] mset_concat_object_values [of "liveQueue s"]
    by (simp add: socket_closed_event_def)
qed

theorem close_event_notifies_and_clears_witness:
  "trace (on_close demo_listening) =
     [HookCall OnClose, NewWebSocket 1 ''ws://db:8000/rpc'',
      Deliver 14 (JObj [(''action'', JStr ''CLOSE''), (''detail'', JStr ''SOCKET_CLOSED'')]),
      Deliver 13 (JObj [(''action'', JStr ''CLOSE''), (''detail'', JStr ''SOCKET_CLOSED'')]),
      Deliver 11 (JObj [(''action'', JStr ''CLOSE''), (''detail'', JStr ''SOCKET_CLOSED'')]),
      Deliver 12 (JObj [(''action'', JStr ''CLOSE''), (''detail'', JStr ''SOCKET_CLOSED'')]),
      SetTimeout 2500, HookCall OnClose]
   \<and> queue (on_close demo_listening) = Map.empty
   \<and> liveQueue (on_close demo_listening) = []
   \<and> unprocessedLiveResponses (on_close demo_listening) = Map.empty"
  using close_event_notifies_and_clears [of demo_listening]
  by (simp add: demo_listening_liveQueue demo_listening_fields demo_object_values)

text \<open>
  C2.  If the status is not \<^verbatim>\<open>CLOSED\<close> when a transport closes, the listener sets it to
  \<^verbatim>\<open>RECONNECTING\<close>, arms one timer of 2500 ms whose expiry calls \<open>open\<close>, and then calls
  the close hook if there is one.  If the status is \<^verbatim>\<open>CLOSED\<close>, it arms no timer and the
  status stays \<^verbatim>\<open>CLOSED\<close>.  \<open>close\<close> itself sets the status to \<^verbatim>\<open>CLOSED\<close> and arms no
  timer, and neither does the close event that follows it.
\<close>

theorem close_event_reconnection:
  "(status s \<noteq> CLOSED \<longrightarrow>
      status (on_close s) = RECONNECTING
      \<and> timers (on_close s) = Suc (timers s)
      \<and> new_effects s (on_close s) =
          map (\<lambda>cb. Deliver cb socket_closed_event) (concat (object_values (liveQueue s)))
          @ SetTimeout 2500 # (if OnClose \<in> hooks s then [HookCall OnClose] else [])
      \<and> step Timeout (on_close s) = Some (open_socket ((on_close s)\<lparr>timers := timers s\<rparr>)))
   \<and> (status s = CLOSED \<longrightarrow>
      status (on_close s) = CLOSED
      \<and> timers (on_close s) = timers s
      \<and> SetTimeout d \<notin> set (new_effects s (on_close s)))
   \<and> status (close reason s) = CLOSED
   \<and> timers (close reason s) = timers s
   \<and> SetTimeout d \<notin> set (new_effects s (close reason s))
   \<and> status (on_close (close reason s)) = CLOSED
   \<and> timers (on_close (close reason s)) = timers s
   \<and> SetTimeout d \<notin> set (new_effects s (on_close (close reason s)))"
proof -
  have a: "status s \<noteq> CLOSED \<longrightarrow>
      status (on_close s) = RECONNECTING
      \<and> timers (on_close s) = Suc (timers s)
      \<and> new_effects s (on_close s) =
          map (\<lambda>cb. Deliver cb socket_closed_event) (concat (object_values (liveQueue s)))
          @ SetTimeout 2500 # (if OnClose \<in> hooks s then [HookCall OnClose] else [])
      \<and> step Timeout (on_close s) = Some (open_socket ((on_close s)\<lparr>timers := timers s\<rparr>))"
    using step_timeout_on_close [of s]
    by (simp add: status_on_close timers_on_close new_on_close)
  have b: "status s = CLOSED \<longrightarrow>
      status (on_close s) = CLOSED
      \<and> timers (on_close s) = timers s
      \<and> SetTimeout d \<notin> set (new_effects s (on_close s))"
    by (auto simp add: status_on_close timers_on_close new_on_close)
  have c: "SetTimeout d \<notin> set (new_effects s (close reason s))"
    by (auto simp add: new_close split: option.splits)
  have e: "SetTimeout d \<notin> set (new_effects s (on_close (close reason s)))"
    by (auto simp add: new_close_on_close split: option.splits)
  from a b c e show ?thesis
    by (simp add: close_status close_timers status_on_close timers_on_close)
qed

theorem close_event_reconnection_witness:
  "status demo_listening \<noteq> CLOSED
   \<and> status (on_close demo_listening) = RECONNECTING
   \<and> timers (on_close demo_listening) = 1
   \<and> new_effects demo_listening (on_close demo_listening) =
       [Deliver 14 socket_closed_event, Deliver 13 socket_closed_event,
        Deliver 11 socket_closed_event, Deliver 12 socket_closed_event,
        SetTimeout 2500, HookCall OnClose]
   \<and> status (close 1000 demo_listening) = CLOSED
   \<and> status (on_close (close 1000 demo_listening)) = CLOSED
   \<and> timers (on_close (close 1000 demo_listening)) = 0
   \<and> SetTimeout 2500 \<notin> set (new_effects (close 1000 demo_listening)
                                 (on_close (close 1000 demo_listening)))"
  using close_event_reconnection [of demo_listening 2500 1000]
    close_event_reconnection [of "close 1000 demo_listening" 2500 1000]
  by (simp add: demo_listening_liveQueue demo_listening_fields demo_object_values close_status
        close_timers)

text \<open>
  C10.  Once the flag of an \<open>open\<close> call is set, which the open and the error listener
  both do when they settle the readiness promise, an error event of that transport only
  sets the status to \<^verbatim>\<open>CLOSED\<close>: no promise is settled again and the error hook is not
  called.  The error hook is called exactly by an error event that finds the flag unset,
  when a hook is present.
\<close>

theorem error_after_settling:
  "(resolved s w = Some True \<longrightarrow> on_error w s = s\<lparr>status := CLOSED\<rparr>)
   \<and> status (on_error w s) = CLOSED
   \<and> (HookCall OnError \<in> set (new_effects s (on_error w s))
        \<longleftrightarrow> resolved s w \<noteq> Some True \<and> OnError \<in> hooks s)
   \<and> resolved (on_open w s) w = Some True
   \<and> resolved (on_error w s) w = Some True"
  by (simp add: on_error_def on_open_def Let_def call_hook_def emit_def settle_def new_effects_def)

lemma demo_open_fields:
  "resolved demo_open (Suc 0) = Some True" "hooks demo_open = {OnClose, OnError}"
  "status demo_open = OPEN" "ws demo_open = Some 1" "queue demo_open = Map.empty"
  "trace demo_open = [HookCall OnClose, NewWebSocket 1 ''ws://db:8000/rpc'']"
  by (simp_all add: demo_open_def ops)

theorem error_after_settling_witness:
  "resolved demo_open 1 = Some True \<and> OnError \<in> hooks demo_open
   \<and> on_error 1 demo_open = demo_open\<lparr>status := CLOSED\<rparr>
   \<and> HookCall OnError \<notin> set (new_effects demo_open (on_error 1 demo_open))"
  using error_after_settling [of demo_open 1] by (simp add: demo_open_fields new_effects_def)


section \<open>Classification of inbound frames\<close>

lemma isLiveNotification_shape:
  "isLiveNotification res = (if is_primitive res then Inl TypeError else Inr (push_notification_shape res))"
  by (cases res) (auto simp: isLiveNotification_def push_notification_shape_def is_primitive_def own_def
       split: option.splits json.splits)

lemma primitive_not_shape: "is_primitive res \<Longrightarrow> \<not> push_notification_shape res"
  by (cases res) (simp_all add: is_primitive_def push_notification_shape_def)

lemma on_message_primitive: "is_primitive res \<Longrightarrow> on_message res s = (Some TypeError, s)"
  by (simp add: on_message_def isLiveNotification_def)

lemma on_message_notification:
  "push_notification_shape res \<Longrightarrow> field ''result'' res = Some (JObj r) \<Longrightarrow>
   on_message res s = (None, unawaited (handleLiveBatch r s))"
  by (cases res) (auto simp: on_message_def isLiveNotification_shape push_notification_shape_def is_primitive_def)


lemma on_message_other:
  "\<not> is_primitive res \<Longrightarrow> \<not> push_notification_shape res \<Longrightarrow>
   on_message res s =
     (case field ''id'' res of
        None \<Rightarrow> (None, s)
      | Some i \<Rightarrow>
          if truthy i then
            (case to_key i of
               Inl e \<Rightarrow> (Some e, s)
             | Inr k \<Rightarrow>
                 (case queue s k of
                    Some p \<Rightarrow>
                      (None, (settle (ReplyP p) (Fulfilled (Some res)) s)\<lparr>queue := (queue s)(k := None)\<rparr>)
                  | None \<Rightarrow> if inherited k then call_inherited k res s else (None, s)))
          else (None, s))"
  by (simp add: on_message_def isLiveNotification_shape)







section \<open>Delivery of inbound frames\<close>

lemma notification_of_shape:
  "push_notification_shape res \<Longrightarrow>
   \<exists>r v. field ''result'' res = Some (JObj r) \<and> map_of r ''id'' = Some v
         \<and> notification_of res =
             (case to_key v of Inr k \<Rightarrow> Some (k, JObj (AList.delete ''id'' r)) | Inl e \<Rightarrow> None)"
  by (cases res)
     (auto simp: notification_of_def push_notification_shape_def split: option.splits json.splits)


lemma error_is_TypeError: "(e :: error) = TypeError"
  by (cases e) simp

lemma deliver_notification_shape:
  assumes "push_notification_shape res"
  shows "deliver_message res s =
     (case notification_of res of
        None \<Rightarrow> emit [Unhandled TypeError] s
      | Some (k, p) \<Rightarrow>
          (case map_of (liveQueue s) k of
             Some cbs \<Rightarrow> emit (map (\<lambda>cb. Deliver cb p) cbs) s
           | None \<Rightarrow>
               if inherited k then emit [Unhandled TypeError] s
               else s\<lparr>unprocessedLiveResponses :=
                        (unprocessedLiveResponses s)(k \<mapsto> buffer s k @ [p])\<rparr>))"
proof -
  from assms obtain r v where r: "field ''result'' res = Some (JObj r)" "map_of r ''id'' = Some v"
    "notification_of res =
       (case to_key v of Inr k \<Rightarrow> Some (k, JObj (AList.delete ''id'' r)) | Inl e \<Rightarrow> None)"
    using notification_of_shape by blast
  have om: "on_message res s = (None, unawaited (handleLiveBatch r s))"
    using assms r(1) by (rule on_message_notification)
  show ?thesis
  proof (cases "to_key v")
    case (Inl e)
    then show ?thesis
      using r(2,3) error_is_TypeError [of e]
      by (simp add: deliver_message_def om handleLiveBatch_def unawaited_def)
  next
    case (Inr k)
    then show ?thesis
      using r(2,3)
      by (simp add: deliver_message_def om handleLiveBatch_def unawaited_def Let_def buffer_def
            split: option.splits)
  qed
qed

lemma deliver_other:
  assumes "\<not> is_primitive res" "\<not> push_notification_shape res"
  shows "deliver_message res s =
     (case field ''id'' res of
        None \<Rightarrow> s
      | Some i \<Rightarrow>
          if truthy i then
            (case to_key i of
               Inl e \<Rightarrow> emit [Uncaught e] s
             | Inr k \<Rightarrow>
                 (case queue s k of
                    Some q \<Rightarrow>
                      (settle (ReplyP q) (Fulfilled (Some res)) s)\<lparr>queue := (queue s)(k := None)\<rparr>
                  | None \<Rightarrow>
                      if inherited k
                      then (case call_inherited k res s of
                              (None, s') \<Rightarrow> s'
                            | (Some e, s') \<Rightarrow> emit [Uncaught e] s')
                      else s))
          else s)"
  using assms
  by (auto simp: deliver_message_def on_message_other split: option.splits sum.splits)

lemma deliver_primitive: "is_primitive res \<Longrightarrow> deliver_message res s = emit [Uncaught TypeError] s"
  by (simp add: deliver_message_def on_message_primitive)

text \<open>What calling an inherited value can do to the socket.\<close>

lemma call_inherited_effect:
  "(\<exists>es. (case call_inherited k res s of (None, s') \<Rightarrow> s' | (Some e, s') \<Rightarrow> emit [Uncaught e] s')
          = s\<lparr>trace := es\<rparr>)
   \<or> (\<exists>q. queue s ''toString'' = Some q
         \<and> (case call_inherited k res s of (None, s') \<Rightarrow> s' | (Some e, s') \<Rightarrow> emit [Uncaught e] s')
             = settle (ReplyP q) (Fulfilled None) s)"
proof -
  have same: "\<exists>es. s = s\<lparr>trace := es\<rparr>" by (rule exI [of _ "trace s"]) simp
  have em: "\<exists>es. emit e s = s\<lparr>trace := es\<rparr>" for e
    by (rule exI [of _ "trace s @ e"]) (simp add: emit_def)
  show ?thesis
    using same em
    by (auto simp: call_inherited_def split: option.splits sum.splits)
qed


lemma deliver_message_effect:
  "(\<exists>es b. deliver_message res s = s\<lparr>trace := es, unprocessedLiveResponses := b\<rparr>)
   \<or> (\<exists>x k q. field ''id'' res = Some x \<and> truthy x \<and> to_key x = Inr k \<and> queue s k = Some q
         \<and> deliver_message res s =
             (settle (ReplyP q) (Fulfilled (Some res)) s)\<lparr>queue := (queue s)(k := None)\<rparr>)
   \<or> (\<exists>q. queue s ''toString'' = Some q
         \<and> deliver_message res s = settle (ReplyP q) (Fulfilled None) s)"
proof -
  let ?A = "\<lambda>t. \<exists>es b. t = s\<lparr>trace := es, unprocessedLiveResponses := b\<rparr>"
  have same: "?A s"
    by (rule exI [of _ "trace s"], rule exI [of _ "unprocessedLiveResponses s"]) simp
  have em: "?A (emit e s)" for e
    by (rule exI [of _ "trace s @ e"], rule exI [of _ "unprocessedLiveResponses s"])
       (simp add: emit_def)
  have un: "?A (s\<lparr>unprocessedLiveResponses := c\<rparr>)" for c
    by (rule exI [of _ "trace s"], rule exI [of _ c]) simp
  have tr: "?A (s\<lparr>trace := es\<rparr>)" for es
    by (rule exI [of _ es], rule exI [of _ "unprocessedLiveResponses s"]) simp
  show ?thesis
  proof (cases "is_primitive res")
    case True
    then show ?thesis using em by (simp add: deliver_primitive)
  next
    case np: False
    show ?thesis
    proof (cases "push_notification_shape res")
      case True
      have "?A (deliver_message res s)"
        unfolding deliver_notification_shape [OF True]
        using em un by (auto split: option.splits)
      then show ?thesis by blast
    next
      case ns: False
      show ?thesis
      proof (cases "field ''id'' res")
        case None
        then show ?thesis using np ns same by (simp add: deliver_other)
      next
        case (Some x)
        show ?thesis
        proof (cases "truthy x")
          case False
          then show ?thesis using np ns Some same by (simp add: deliver_other)
        next
          case t: True
          show ?thesis
          proof (cases "to_key x")
            case (Inl e)
            then show ?thesis using np ns Some t em by (simp add: deliver_other)
          next
            case (Inr k)
            show ?thesis
            proof (cases "queue s k")
              case (Some q)
              then have "deliver_message res s =
                  (settle (ReplyP q) (Fulfilled (Some res)) s)\<lparr>queue := (queue s)(k := None)\<rparr>"
                using np ns \<open>field ''id'' res = Some x\<close> t Inr by (simp add: deliver_other)
              then show ?thesis using \<open>field ''id'' res = Some x\<close> t Inr Some by blast
            next
              case None
              show ?thesis
              proof (cases "inherited k")
                case False
                then show ?thesis using np ns Some t Inr None same by (simp add: deliver_other)
              next
                case True
                then have d: "deliver_message res s =
                    (case call_inherited k res s of
                       (None, s') \<Rightarrow> s' | (Some e, s') \<Rightarrow> emit [Uncaught e] s')"
                  using np ns Some t Inr None by (simp add: deliver_other)
                from call_inherited_effect [of k res s]
                have "(\<exists>es. deliver_message res s = s\<lparr>trace := es\<rparr>)
                      \<or> (\<exists>q. queue s ''toString'' = Some q
                            \<and> deliver_message res s = settle (ReplyP q) (Fulfilled None) s)"
                  by (simp only: d)
                then show ?thesis
                proof
                  assume "\<exists>es. deliver_message res s = s\<lparr>trace := es\<rparr>"
                  then obtain es where "deliver_message res s = s\<lparr>trace := es\<rparr>" by blast
                  then have "?A (deliver_message res s)" using tr [of es] by simp
                  then show ?thesis by blast
                next
                  assume "\<exists>q. queue s ''toString'' = Some q
                            \<and> deliver_message res s = settle (ReplyP q) (Fulfilled None) s"
                  then show ?thesis by blast
                qed
              qed
            qed
          qed
        qed
      qed
    qed
  qed
qed

lemma settle_fields:
  "liveQueue (settle p v s) = liveQueue s" "queue (settle p v s) = queue s"
  "unprocessedLiveResponses (settle p v s) = unprocessedLiveResponses s"
  "tasks (settle p v s) = tasks s" "fresh (settle p v s) = fresh s" "ws (settle p v s) = ws s"
  "ready (settle p v s) = ready s" "resolved (settle p v s) = resolved s"
  "trace (settle p v s) = trace s" "resolveClosed (settle p v s) = resolveClosed s"
  by (simp_all add: settle_def)

lemma deliver_message_keeps:
  "liveQueue (deliver_message res s) = liveQueue s"
  "tasks (deliver_message res s) = tasks s"
  "fresh (deliver_message res s) = fresh s"
  "ws (deliver_message res s) = ws s"
  "ready (deliver_message res s) = ready s"
  "resolved (deliver_message res s) = resolved s"
  "resolveClosed (deliver_message res s) = resolveClosed s"
  using deliver_message_effect [of res s] by (auto simp: settle_fields)





section \<open>States reached from a new socket\<close>

lemma send_futures_append: "send_futures (ts @ us) = send_futures ts @ send_futures us"
  by (induction ts rule: send_futures.induct) simp_all

lemma send_futures_remove1_subset: "set (send_futures (remove1 t ts)) \<subseteq> set (send_futures ts)"
  by (induction ts rule: send_futures.induct) auto

lemma send_futures_remove1_distinct:
  "distinct (send_futures ts) \<Longrightarrow> distinct (send_futures (remove1 t ts))"
proof (induction ts rule: send_futures.induct)
  case (2 r fut m ps ts)
  then show ?case using send_futures_remove1_subset [of t ts] by auto
qed auto

lemma send_futures_mem:
  "SendAwaitReady r fut m ps \<in> set ts \<Longrightarrow> fut \<in> set (send_futures ts)"
  by (induction ts rule: send_futures.induct) auto

lemma send_futures_remove1_self:
  "distinct (send_futures ts) \<Longrightarrow> SendAwaitReady r fut m ps \<in> set ts \<Longrightarrow>
   fut \<notin> set (send_futures (remove1 (SendAwaitReady r fut m ps) ts))"
proof (induction ts rule: send_futures.induct)
  case (2 r' fut' m' ps' ts)
  then show ?case using send_futures_mem [of r fut m ps ts] by auto
qed auto

lemma list_all_update:
  "list_all P al \<Longrightarrow> P (k, v) \<Longrightarrow> list_all P (AList.update k v al)"
  by (induction al) auto

lemma list_all_delete: "list_all P al \<Longrightarrow> list_all P (AList.delete k al)"
  by (induction al) auto

lemma wf_init: "wf (SurrealSocket u hs)"
  by (simp add: wf_def SurrealSocket_def)

lemma wf_close: "wf s \<Longrightarrow> wf (close reason s)"
  by (auto simp: wf_def close_def Let_def park_def call_hook_def emit_def less_Suc_eq
        send_futures_append split: option.splits)

lemma wf_timers: "wf (s\<lparr>timers := n\<rparr>) = wf s"
  by (simp add: wf_def)

lemma wf_open_socket: "wf s \<Longrightarrow> wf (open_socket s)"
proof -
  assume "wf s"
  then have w: "wf (close 1000 s)" by (rule wf_close)
  show ?thesis
    using w by (auto simp: wf_def open_socket_def Let_def emit_def less_Suc_eq)
qed

lemma wf_on_open: "wf s \<Longrightarrow> resolved s w \<noteq> None \<Longrightarrow> wf (on_open w s)"
  by (auto simp: wf_def on_open_def Let_def call_hook_def emit_def settle_def)

lemma wf_on_error: "wf s \<Longrightarrow> resolved s w \<noteq> None \<Longrightarrow> wf (on_error w s)"
  by (auto simp: wf_def on_error_def Let_def call_hook_def emit_def settle_def)

lemma wf_on_close: "wf s \<Longrightarrow> wf (on_close s)"
  by (auto simp: wf_def on_close_def Let_def call_hook_def emit_def settle_def split: option.splits)

lemma wf_trace_unprocessed:
  "wf (s\<lparr>trace := es, unprocessedLiveResponses := b\<rparr>) = wf s"
  by (simp add: wf_def)

lemma wf_settle_queued:
  assumes "wf s" "queue s k = Some q"
  shows "wf (settle (ReplyP q) v s)" "wf ((settle (ReplyP q) v s)\<lparr>queue := (queue s)(k' := None)\<rparr>)"
proof -
  have nq: "q \<notin> set (send_futures (tasks s))" using assms by (auto simp: wf_def)
  show "wf (settle (ReplyP q) v s)"
    using assms(1) nq by (auto simp: wf_def settle_def)
  show "wf ((settle (ReplyP q) v s)\<lparr>queue := (queue s)(k' := None)\<rparr>)"
    using assms(1) nq by (auto simp: wf_def settle_def)
qed

lemma wf_deliver_message: "wf s \<Longrightarrow> wf (deliver_message res s)"
  using deliver_message_effect [of res s]
  by (auto simp: wf_trace_unprocessed wf_settle_queued)

lemma wf_send: "wf s \<Longrightarrow> wf (send m ps s)"
  by (auto simp: wf_def send_def park_def less_Suc_eq send_futures_append)

lemma wf_listenLive_replay: "wf s \<Longrightarrow> wf (snd (listenLive_replay S cb s))"
  by (auto simp: wf_def listenLive_replay_def park_def emit_def send_futures_append
        split: option.splits)

lemma wf_listenLive: "wf s \<Longrightarrow> wf (snd (listenLive S cb s))"
proof -
  assume a: "wf s"
  have "wf (s\<lparr>liveQueue := AList.update S cbs (liveQueue s)\<rparr>)" if "cbs \<noteq> []" for cbs
    using a that by (auto simp: wf_def intro: list_all_update)
  then show ?thesis
    using a by (auto simp: listenLive_def wf_listenLive_replay split: option.splits)
qed

lemma wf_kill_send: "wf s \<Longrightarrow> wf (kill_send S s)"
proof -
  assume "wf s"
  then have "wf (send ''kill'' [JStr S] s)" by (rule wf_send)
  then show ?thesis by (simp add: kill_send_def park_def wf_def send_futures_append)
qed

lemma wf_kill: "wf s \<Longrightarrow> wf (snd (kill S s))"
proof -
  assume a: "wf s"
  have "wf ((emit es s)\<lparr>liveQueue := AList.delete S (liveQueue s)\<rparr>)" for es
    using a by (auto simp: wf_def emit_def intro: list_all_delete)
  then show ?thesis
    using a by (auto simp: kill_def wf_kill_send split: option.splits)
qed

lemma wf_drop_task:
  "wf s \<Longrightarrow> wf (s\<lparr>tasks := remove1 t (tasks s)\<rparr>)"
  using send_futures_remove1_subset [of t "tasks s"]
  by (auto simp: wf_def intro: send_futures_remove1_distinct)

lemma wf_unprocessed: "wf (s\<lparr>unprocessedLiveResponses := b\<rparr>) = wf s"
  by (simp add: wf_def)

lemma wf_send_rest:
  assumes "wf s" "fut < fresh s" "fut \<notin> set (send_futures (tasks s))"
  shows "wf (send_rest fut m ps n s)"
  using assms
  by (auto simp: wf_def send_rest_def Let_def emit_def split: option.splits if_splits)

lemma wf_settle_reply:
  assumes "wf s" "fut \<notin> set (send_futures (tasks s))"
  shows "wf (settle (ReplyP fut) v s)"
  using assms by (auto simp: wf_def settle_def)

lemma wf_resume:
  assumes "wf s" "t \<in> set (tasks s)" "resume t n (s\<lparr>tasks := remove1 t (tasks s)\<rparr>) = Some s'"
  shows "wf s'"
proof (cases t)
  case (SendAwaitReady r fut m ps)
  let ?s0 = "s\<lparr>tasks := remove1 t (tasks s)\<rparr>"
  have w0: "wf ?s0" using assms(1) by (rule wf_drop_task)
  have "fut \<in> set (send_futures (tasks s))"
    using assms(2) SendAwaitReady by (simp add: send_futures_mem)
  then have fut: "fut < fresh ?s0" using assms(1) by (simp add: wf_def)
  have "distinct (send_futures (tasks s))" using assms(1) by (simp add: wf_def)
  then have gone: "fut \<notin> set (send_futures (tasks ?s0))"
    using assms(2) SendAwaitReady by (simp add: send_futures_remove1_self)
  have "s' = send_rest fut m ps n ?s0 \<or> s' = settle (ReplyP fut) Rejected ?s0"
    using assms(3) SendAwaitReady by (auto split: option.splits settled.splits)
  then show ?thesis
    using wf_send_rest [OF w0 fut gone] wf_settle_reply [OF w0 gone] by auto
next
  case (ListenAwaitAll S)
  then show ?thesis
    using assms(3) wf_drop_task [OF assms(1), of t] by (auto simp: wf_unprocessed)
next
  case (KillAwaitSend S fut)
  then show ?thesis
    using assms(3) wf_drop_task [OF assms(1), of t]
    by (auto simp: wf_unprocessed split: option.splits settled.splits)
next
  case (CloseAwaitClosed p)
  then show ?thesis
    using assms(3) wf_drop_task [OF assms(1), of t] by (auto split: option.splits)
qed

lemma wf_step: "wf s \<Longrightarrow> step e s = Some s' \<Longrightarrow> wf s'"
proof (cases e)
  case (Resume t n)
  assume "wf s" "step e s = Some s'"
  then show ?thesis using Resume wf_resume [of s t n s'] by (auto split: if_splits)
next
  case Timeout
  assume "wf s" "step e s = Some s'"
  then show ?thesis using Timeout wf_open_socket [of "s\<lparr>timers := timers s - 1\<rparr>"]
    by (auto simp: wf_timers split: if_splits)
qed (auto simp: wf_open_socket wf_close wf_send wf_listenLive wf_kill wf_on_open wf_on_error
       wf_on_close wf_deliver_message split: if_splits)

lemma wf_run: "wf s \<Longrightarrow> run es s = Some s' \<Longrightarrow> wf s'"
proof (induction es arbitrary: s)
  case Nil
  then show ?case by simp
next
  case (Cons e es)
  then show ?case by (auto split: option.splits dest: wf_step)
qed

lemma wf_reachable: "run es (SurrealSocket u hs) = Some s \<Longrightarrow> wf s"
  using wf_init by (rule wf_run)


lemma wf_no_transport: "wf s \<Longrightarrow> ws s = None \<Longrightarrow> resolved s = Map.empty \<and> ready s = None"
  by (simp add: wf_def)


section \<open>Early notifications\<close>








text \<open>
  \<open>listenLive\<close> for a name that has a list of its own or is not inherited: the callback
  joins the list, is called with the buffer, and the call parks on \<^verbatim>\<open>Promise.all\<close>.
\<close>

lemma listenLive_own:
  assumes "map_of (liveQueue s) S \<noteq> None \<or> \<not> inherited S"
      and "unprocessedLiveResponses s S \<noteq> None \<or> \<not> inherited S"
  shows "listenLive S cb s =
     (None, park (ListenAwaitAll S)
              (emit (map (Deliver cb) (buffer s S))
                 (s\<lparr>liveQueue := AList.update S (listeners s S @ [cb]) (liveQueue s)\<rparr>)))"
  using assms
  by (auto simp: listenLive_def listenLive_replay_def buffer_def listeners_def emit_def park_def
        split: option.splits)

lemma new_listenLive:
  "\<not> inherited S \<Longrightarrow> new_effects s (snd (listenLive S cb s)) = map (Deliver cb) (buffer s S)"
  by (rule new_effects_append) (simp add: listenLive_own emit_def park_def)










section \<open>Draining the buffer\<close>









text \<open>
  The buffer entry is removed by the continuation of \<open>listenLive\<close>, not by the call: a
  second registration made before the first one has continued is given the same
  payloads again.
\<close>

lemma second_registration_before_continuation:
  "\<not> inherited S \<Longrightarrow>
   new_effects (snd (listenLive S cb1 s)) (snd (listenLive S cb2 (snd (listenLive S cb1 s))))
     = map (Deliver cb2) (buffer s S)"
  by (simp add: new_listenLive) (simp add: buffer_def listenLive_own park_def emit_def)


section \<open>Killing a subscription\<close>







text \<open>A frame that carries the identifier of a pending request settles it.\<close>

lemma deliver_reply:
  assumes "carries k res" "queue s k = Some fut"
  shows "deliver_message res s =
     (settle (ReplyP fut) (Fulfilled (Some res)) s)\<lparr>queue := (queue s)(k := None)\<rparr>"
proof -
  from assms(1) obtain x where x: "field ''id'' res = Some x" "truthy x" "to_key x = Inr k"
    by (auto simp: carries_def split: option.splits)
  from x(1) obtain fs where res: "res = JObj fs" by (cases res) simp_all
  then have np: "\<not> is_primitive res" by (simp add: is_primitive_def)
  have ns: "\<not> push_notification_shape res"
    using x(1) res by (simp add: push_notification_shape_def)
  show ?thesis
    using x assms(2) by (simp add: deliver_other [OF np ns])
qed

lemma deliver_reply_fields:
  assumes "carries k res" "queue s k = Some fut" "promises s (ReplyP fut) = None"
  shows "promises (deliver_message res s) (ReplyP fut) = Some (Fulfilled (Some res))"
    and "tasks (deliver_message res s) = tasks s"
    and "trace (deliver_message res s) = trace s"
    and "queue (deliver_message res s) = (queue s)(k := None)"
  using assms(3) by (simp_all add: deliver_reply [OF assms(1,2)] settle_def)







section \<open>Closing without a transport\<close>


text \<open>
  A \<open>close\<close> call whose promise \<open>p\<close> can only be resolved through \<open>resolveClosed\<close>, at a
  time when no transport exists to raise a close event.
\<close>

lemma hang_close:
  assumes "promises s (ClosedP p) = None" "CloseAwaitClosed p \<in> set (tasks s)" "p < fresh s"
    "resolveClosed s = Some p \<longrightarrow> resolved s = Map.empty"
  shows "promises (close reason s) (ClosedP p) = None \<and> CloseAwaitClosed p \<in> set (tasks (close reason s))
         \<and> p < fresh (close reason s)
         \<and> (resolveClosed (close reason s) = Some p \<longrightarrow> resolved (close reason s) = Map.empty)"
  using assms
  by (auto simp: close_def Let_def park_def call_hook_def emit_def split: option.splits)

lemma hang_open_socket:
  assumes "promises s (ClosedP p) = None" "CloseAwaitClosed p \<in> set (tasks s)" "p < fresh s"
    "resolveClosed s = Some p \<longrightarrow> resolved s = Map.empty"
  shows "promises (open_socket s) (ClosedP p) = None \<and> CloseAwaitClosed p \<in> set (tasks (open_socket s))
         \<and> p < fresh (open_socket s)
         \<and> (resolveClosed (open_socket s) = Some p \<longrightarrow> resolved (open_socket s) = Map.empty)"
  using assms
  by (auto simp: open_socket_def close_def Let_def park_def call_hook_def emit_def split: option.splits)

lemma hang_on_open:
  assumes "promises s (ClosedP p) = None" "CloseAwaitClosed p \<in> set (tasks s)" "p < fresh s"
    "resolveClosed s = Some p \<longrightarrow> resolved s = Map.empty" "resolved s w \<noteq> None"
  shows "promises (on_open w s) (ClosedP p) = None \<and> CloseAwaitClosed p \<in> set (tasks (on_open w s))
         \<and> p < fresh (on_open w s)
         \<and> (resolveClosed (on_open w s) = Some p \<longrightarrow> resolved (on_open w s) = Map.empty)"
  using assms
  by (auto simp: on_open_def Let_def call_hook_def emit_def settle_def)

lemma hang_on_error:
  assumes "promises s (ClosedP p) = None" "CloseAwaitClosed p \<in> set (tasks s)" "p < fresh s"
    "resolveClosed s = Some p \<longrightarrow> resolved s = Map.empty" "resolved s w \<noteq> None"
  shows "promises (on_error w s) (ClosedP p) = None \<and> CloseAwaitClosed p \<in> set (tasks (on_error w s))
         \<and> p < fresh (on_error w s)
         \<and> (resolveClosed (on_error w s) = Some p \<longrightarrow> resolved (on_error w s) = Map.empty)"
  using assms
  by (auto simp: on_error_def Let_def call_hook_def emit_def settle_def)

lemma hang_on_close:
  assumes "promises s (ClosedP p) = None" "CloseAwaitClosed p \<in> set (tasks s)" "p < fresh s"
    "resolveClosed s = Some p \<longrightarrow> resolved s = Map.empty" "resolved s w \<noteq> None"
  shows "promises (on_close s) (ClosedP p) = None \<and> CloseAwaitClosed p \<in> set (tasks (on_close s))
         \<and> p < fresh (on_close s)
         \<and> (resolveClosed (on_close s) = Some p \<longrightarrow> resolved (on_close s) = Map.empty)"
  using assms
  by (auto simp: on_close_def Let_def call_hook_def emit_def settle_def split: option.splits)

lemma promises_deliver_message_closed:
  "promises (deliver_message res s) (ClosedP p) = promises s (ClosedP p)"
  using deliver_message_effect [of res s] by (auto simp: settle_def)

lemma hang_deliver_message:
  assumes "promises s (ClosedP p) = None" "CloseAwaitClosed p \<in> set (tasks s)" "p < fresh s"
    "resolveClosed s = Some p \<longrightarrow> resolved s = Map.empty"
  shows "promises (deliver_message res s) (ClosedP p) = None
         \<and> CloseAwaitClosed p \<in> set (tasks (deliver_message res s))
         \<and> p < fresh (deliver_message res s)
         \<and> (resolveClosed (deliver_message res s) = Some p \<longrightarrow> resolved (deliver_message res s) = Map.empty)"
  using assms by (simp add: deliver_message_keeps promises_deliver_message_closed)

lemma hang_send:
  assumes "promises s (ClosedP p) = None" "CloseAwaitClosed p \<in> set (tasks s)" "p < fresh s"
    "resolveClosed s = Some p \<longrightarrow> resolved s = Map.empty"
  shows "promises (send m ps s) (ClosedP p) = None \<and> CloseAwaitClosed p \<in> set (tasks (send m ps s))
         \<and> p < fresh (send m ps s)
         \<and> (resolveClosed (send m ps s) = Some p \<longrightarrow> resolved (send m ps s) = Map.empty)"
  using assms by (auto simp: send_def park_def)

lemma hang_listenLive:
  assumes "promises s (ClosedP p) = None" "CloseAwaitClosed p \<in> set (tasks s)" "p < fresh s"
    "resolveClosed s = Some p \<longrightarrow> resolved s = Map.empty"
  shows "promises (snd (listenLive S cb s)) (ClosedP p) = None
         \<and> CloseAwaitClosed p \<in> set (tasks (snd (listenLive S cb s)))
         \<and> p < fresh (snd (listenLive S cb s))
         \<and> (resolveClosed (snd (listenLive S cb s)) = Some p
               \<longrightarrow> resolved (snd (listenLive S cb s)) = Map.empty)"
  using assms
  by (auto simp: listenLive_def listenLive_replay_def park_def emit_def split: option.splits)

lemma hang_kill:
  assumes "promises s (ClosedP p) = None" "CloseAwaitClosed p \<in> set (tasks s)" "p < fresh s"
    "resolveClosed s = Some p \<longrightarrow> resolved s = Map.empty"
  shows "promises (snd (kill S s)) (ClosedP p) = None
         \<and> CloseAwaitClosed p \<in> set (tasks (snd (kill S s)))
         \<and> p < fresh (snd (kill S s))
         \<and> (resolveClosed (snd (kill S s)) = Some p \<longrightarrow> resolved (snd (kill S s)) = Map.empty)"
  using assms
  by (auto simp: kill_def kill_send_def send_def park_def emit_def split: option.splits)

lemma hang_resume:
  assumes "promises s (ClosedP p) = None" "CloseAwaitClosed p \<in> set (tasks s)" "p < fresh s"
    "resolveClosed s = Some p \<longrightarrow> resolved s = Map.empty"
    "t \<in> set (tasks s)" "resume t i (s\<lparr>tasks := remove1 t (tasks s)\<rparr>) = Some s'"
  shows "promises s' (ClosedP p) = None \<and> CloseAwaitClosed p \<in> set (tasks s')
         \<and> p < fresh s' \<and> (resolveClosed s' = Some p \<longrightarrow> resolved s' = Map.empty)"
proof (cases t)
  case (SendAwaitReady r fut m ps)
  then show ?thesis
    using assms
    by (auto simp: send_rest_def Let_def emit_def settle_def split: option.splits settled.splits)
next
  case (ListenAwaitAll S)
  then show ?thesis using assms by auto
next
  case (KillAwaitSend S fut)
  then show ?thesis using assms by (auto split: option.splits settled.splits)
next
  case (CloseAwaitClosed q)
  then have "q \<noteq> p" using assms(1,6) by (auto split: option.splits)
  then show ?thesis using CloseAwaitClosed assms by (auto split: option.splits)
qed

lemma hang_step:
  assumes "promises s (ClosedP p) = None" "CloseAwaitClosed p \<in> set (tasks s)" "p < fresh s"
    "resolveClosed s = Some p \<longrightarrow> resolved s = Map.empty" "step e s = Some s'"
  shows "promises s' (ClosedP p) = None \<and> CloseAwaitClosed p \<in> set (tasks s')
         \<and> p < fresh s' \<and> (resolveClosed s' = Some p \<longrightarrow> resolved s' = Map.empty)"
proof (cases e)
  case Open
  then show ?thesis using assms(5) hang_open_socket [OF assms(1-4)] by simp
next
  case (Close reason)
  then show ?thesis using assms(5) hang_close [OF assms(1-4), of reason] by simp
next
  case (Send m ps)
  then show ?thesis using assms(5) hang_send [OF assms(1-4), of m ps] by simp
next
  case (ListenLive S cb)
  then show ?thesis using assms(5) hang_listenLive [OF assms(1-4), of S cb] by simp
next
  case (Kill S)
  then show ?thesis using assms(5) hang_kill [OF assms(1-4), of S] by simp
next
  case (WsOpened w)
  then show ?thesis using assms(5) hang_on_open [OF assms(1-4), of w] by (simp split: if_splits)
next
  case (WsFailed w)
  then show ?thesis using assms(5) hang_on_error [OF assms(1-4), of w] by (simp split: if_splits)
next
  case (WsClosed w)
  then show ?thesis using assms(5) hang_on_close [OF assms(1-4), of w] by (simp split: if_splits)
next
  case (WsMessage w res)
  then show ?thesis using assms(5) hang_deliver_message [OF assms(1-4), of res] by (simp split: if_splits)
next
  case Timeout
  have "promises (s\<lparr>timers := timers s - 1\<rparr>) (ClosedP p) = None"
    "CloseAwaitClosed p \<in> set (tasks (s\<lparr>timers := timers s - 1\<rparr>))"
    "p < fresh (s\<lparr>timers := timers s - 1\<rparr>)"
    "resolveClosed (s\<lparr>timers := timers s - 1\<rparr>) = Some p
       \<longrightarrow> resolved (s\<lparr>timers := timers s - 1\<rparr>) = Map.empty"
    using assms(1-4) by simp_all
  from hang_open_socket [OF this] show ?thesis
    using Timeout assms(5) by (simp split: if_splits)
next
  case (Resume t i)
  then show ?thesis
    using assms(5) hang_resume [OF assms(1-4), of t i s'] by (simp split: if_splits)
qed

lemma hang_run:
  assumes "promises s (ClosedP p) = None" "CloseAwaitClosed p \<in> set (tasks s)" "p < fresh s"
    "resolveClosed s = Some p \<longrightarrow> resolved s = Map.empty" "run es s = Some s'"
  shows "promises s' (ClosedP p) = None \<and> CloseAwaitClosed p \<in> set (tasks s')"
  using assms
proof (induction es arbitrary: s)
  case Nil
  then show ?case by simp
next
  case (Cons e es)
  from Cons.prems(5) obtain s1 where s1: "step e s = Some s1" "run es s1 = Some s'"
    by (auto split: option.splits)
  from hang_step [OF Cons.prems(1-4) s1(1)] Cons.IH [of s1] s1(2) show ?case by blast
qed

lemma close_parks:
  "tasks (close reason s) = tasks s @ [CloseAwaitClosed (fresh s)]"
  "promises (close reason s) (ClosedP (fresh s)) = None"
  "fresh (close reason s) = Suc (fresh s)"
  "resolveClosed (close reason s) = Some (fresh s)"
  "resolved (close reason s) = resolved s"
  by (simp_all add: close_def Let_def park_def call_hook_def emit_def split: option.splits)

text \<open>
  C8.  In a state reached from a new socket in which no transport exists, \<open>close\<close> sends
  no close instruction, calls the close hook if there is one, and parks on
  \<^verbatim>\<open>await this.closed\<close>.  The claim that the call then returns does not hold of the code:
  whatever happens afterwards, the promise stays pending and the parked call cannot
  continue.  Only a close event of a transport resolves \<open>resolveClosed\<close>, a transport
  comes only from \<open>open\<close>, and \<open>open\<close> first calls \<open>close\<close>, which replaces \<open>resolveClosed\<close>.
\<close>

theorem close_without_transport_never_returns:
  "run pre (SurrealSocket u hs) = Some s \<Longrightarrow> ws s = None \<Longrightarrow>
     new_effects s (close reason s) = (if OnClose \<in> hooks s then [HookCall OnClose] else [])
     \<and> tasks (close reason s) = tasks s @ [CloseAwaitClosed (fresh s)]
     \<and> (run es (close reason s) = Some s' \<longrightarrow>
          promises s' (ClosedP (fresh s)) = None
          \<and> CloseAwaitClosed (fresh s) \<in> set (tasks s')
          \<and> step (Resume (CloseAwaitClosed (fresh s)) i) s' = None)"
proof -
  assume r: "run pre (SurrealSocket u hs) = Some s" and w: "ws s = None"
  from r have "wf s" by (rule wf_reachable)
  with w have e: "resolved s = Map.empty" by (simp add: wf_no_transport)
  have n: "new_effects s (close reason s) = (if OnClose \<in> hooks s then [HookCall OnClose] else [])"
    using w by (simp add: new_close)
  have h: "promises s' (ClosedP (fresh s)) = None \<and> CloseAwaitClosed (fresh s) \<in> set (tasks s')"
    if "run es (close reason s) = Some s'"
  proof (rule hang_run [OF _ _ _ _ that])
    show "promises (close reason s) (ClosedP (fresh s)) = None" by (rule close_parks)
    show "CloseAwaitClosed (fresh s) \<in> set (tasks (close reason s))" by (simp add: close_parks)
    show "fresh s < fresh (close reason s)" by (simp add: close_parks)
    show "resolveClosed (close reason s) = Some (fresh s) \<longrightarrow> resolved (close reason s) = Map.empty"
      by (simp add: close_parks e)
  qed
  have "step (Resume (CloseAwaitClosed (fresh s)) i) s' = None"
    if "run es (close reason s) = Some s'"
    using h [OF that] by simp
  with n h show ?thesis by (simp add: close_parks)
qed

lemma demo_reclosed_run:
  "run [Open, WsOpened 2, WsClosed 2] (close 1000 demo_new) = Some demo_reclosed"
  by (simp add: demo_reclosed_def demo_new_def ops)

lemma demo_new_fields: "ws demo_new = None" "fresh demo_new = 0" "hooks demo_new = {OnClose, OnError}"
  by (simp_all add: demo_new_def SurrealSocket_def)

theorem close_without_transport_never_returns_witness:
  "run [] (SurrealSocket ''ws://db:8000'' {OnClose, OnError}) = Some demo_new
   \<and> ws demo_new = None
   \<and> new_effects demo_new (close 1000 demo_new) = [HookCall OnClose]
   \<and> run [Open, WsOpened 2, WsClosed 2] (close 1000 demo_new) = Some demo_reclosed
   \<and> promises demo_reclosed (ClosedP 0) = None
   \<and> CloseAwaitClosed 0 \<in> set (tasks demo_reclosed)
   \<and> step (Resume (CloseAwaitClosed 0) 0) demo_reclosed = None"
proof -
  have a: "run [] (SurrealSocket ''ws://db:8000'' {OnClose, OnError}) = Some demo_new"
    by (simp add: demo_new_def)
  note t = close_without_transport_never_returns
    [OF a demo_new_fields(1), of 1000 "[Open, WsOpened 2, WsClosed 2]" demo_reclosed 0]
  show ?thesis
    using t a demo_reclosed_run by (simp only: demo_new_fields) simp
qed


section \<open>Replies to requests\<close>

lemma last_digits: "last (digits n) = ''0123456789'' ! (n mod 10)"
  by (subst digits.simps) simp

lemma digits_not_toString: "digits n \<noteq> ''toString''"
proof
  assume "digits n = ''toString''"
  then have "last (digits n) = CHR ''g''" by simp
  then have g: "''0123456789'' ! (n mod 10) = CHR ''g''" by (simp only: last_digits)
  have "n mod 10 < length ''0123456789''" by simp
  then have "''0123456789'' ! (n mod 10) \<in> set ''0123456789''" by (rule nth_mem)
  then show False unfolding g by simp
qed

lemma unanswered_fields:
  "unanswered fut K (s\<lparr>trace := es, unprocessedLiveResponses := b\<rparr>) = unanswered fut K s"
  by (simp add: unanswered_def)

lemma unanswered_deliver_message:
  assumes u: "unanswered fut K s" and nc: "\<forall>k \<in> K. \<not> carries k res" and ts: "''toString'' \<notin> K"
  shows "unanswered fut K (deliver_message res s)
         \<and> (\<forall>k \<in> K. queue (deliver_message res s) k = queue s k)"
proof -
  from deliver_message_effect [of res s]
  consider
    (same) es b where "deliver_message res s = s\<lparr>trace := es, unprocessedLiveResponses := b\<rparr>"
  | (reply) x k' q where "field ''id'' res = Some x" "truthy x" "to_key x = Inr k'"
      "queue s k' = Some q"
      "deliver_message res s =
         (settle (ReplyP q) (Fulfilled (Some res)) s)\<lparr>queue := (queue s)(k' := None)\<rparr>"
  | (inh) q where "queue s ''toString'' = Some q"
      "deliver_message res s = settle (ReplyP q) (Fulfilled None) s"
    by blast
  then show ?thesis
  proof cases
    case same
    then show ?thesis using u by (simp add: unanswered_fields)
  next
    case reply
    have "carries k' res" using reply(1-3) by (simp add: carries_def)
    then have ne: "k' \<notin> K" using nc by blast
    with reply(4) u have qf: "q \<noteq> fut" by (auto simp: unanswered_def)
    have 1: "unanswered fut K (deliver_message res s)"
      using u qf unfolding reply(5) unanswered_def settle_def by simp
    have 2: "\<forall>k \<in> K. queue (deliver_message res s) k = queue s k"
      using ne unfolding reply(5) by (auto simp: settle_def)
    from 1 2 show ?thesis by blast
  next
    case inh
    from inh(1) ts u have qf: "q \<noteq> fut" by (auto simp: unanswered_def)
    have 1: "unanswered fut K (deliver_message res s)"
      using u qf unfolding inh(2) unanswered_def settle_def by simp
    have 2: "\<forall>k \<in> K. queue (deliver_message res s) k = queue s k"
      unfolding inh(2) by (simp add: settle_def)
    from 1 2 show ?thesis by blast
  qed
qed

lemma unanswered_close: "unanswered fut K s \<Longrightarrow> unanswered fut K (close reason s)"
  by (auto simp: unanswered_def close_def Let_def park_def call_hook_def emit_def
        send_futures_append split: option.splits)

lemma unanswered_timers: "unanswered fut K (s\<lparr>timers := n\<rparr>) = unanswered fut K s"
  by (simp add: unanswered_def)

lemma unanswered_open_socket: "unanswered fut K s \<Longrightarrow> unanswered fut K (open_socket s)"
proof -
  assume "unanswered fut K s"
  then have "unanswered fut K (close 1000 s)" by (rule unanswered_close)
  then show ?thesis
    by (auto simp: unanswered_def open_socket_def Let_def emit_def)
qed

lemma unanswered_on_open: "unanswered fut K s \<Longrightarrow> unanswered fut K (on_open w s)"
  by (auto simp: unanswered_def on_open_def Let_def call_hook_def emit_def settle_def)

lemma unanswered_on_error: "unanswered fut K s \<Longrightarrow> unanswered fut K (on_error w s)"
  by (auto simp: unanswered_def on_error_def Let_def call_hook_def emit_def settle_def)

lemma unanswered_on_close: "unanswered fut K s \<Longrightarrow> unanswered fut K' (on_close s)"
  by (auto simp: unanswered_def on_close_def Let_def call_hook_def emit_def settle_def
        split: option.splits)

lemma unanswered_send: "unanswered fut K s \<Longrightarrow> unanswered fut K (send m ps s)"
  by (auto simp: unanswered_def send_def park_def send_futures_append)

lemma unanswered_listenLive: "unanswered fut K s \<Longrightarrow> unanswered fut K (snd (listenLive S cb s))"
  by (auto simp: unanswered_def listenLive_def listenLive_replay_def park_def emit_def
        send_futures_append split: option.splits)

lemma unanswered_kill: "unanswered fut K s \<Longrightarrow> unanswered fut K (snd (kill S s))"
  by (auto simp: unanswered_def kill_def kill_send_def send_def park_def emit_def
        send_futures_append split: option.splits)

lemma unanswered_resume:
  assumes u: "unanswered fut K s" and t: "t \<in> set (tasks s)"
    and r: "resume t j (s\<lparr>tasks := remove1 t (tasks s)\<rparr>) = Some s'"
  shows "unanswered fut K s'"
proof -
  let ?s0 = "s\<lparr>tasks := remove1 t (tasks s)\<rparr>"
  have u0: "unanswered fut K ?s0"
    using u send_futures_remove1_subset [of t "tasks s"] by (auto simp: unanswered_def)
  show ?thesis
  proof (cases t)
    case (SendAwaitReady r' fut' m ps)
    have "fut' \<in> set (send_futures (tasks s))"
      using t SendAwaitReady by (simp add: send_futures_mem)
    then have ne: "fut' \<noteq> fut" using u by (auto simp: unanswered_def)
    have "s' = send_rest fut' m ps j ?s0 \<or> s' = settle (ReplyP fut') Rejected ?s0"
      using r SendAwaitReady by (auto split: option.splits settled.splits)
    then show ?thesis
      using u0 ne
      by (auto simp: unanswered_def send_rest_def Let_def emit_def settle_def
            split: option.splits if_splits)
  next
    case (ListenAwaitAll S)
    then show ?thesis using r u0 by (auto simp: unanswered_def)
  next
    case (KillAwaitSend S f)
    then show ?thesis using r u0 by (auto simp: unanswered_def split: option.splits settled.splits)
  next
    case (CloseAwaitClosed p)
    then show ?thesis using r u0 by (auto simp: unanswered_def split: option.splits)
  qed
qed

lemma unanswered_step:
  assumes u: "unanswered fut K s" and st: "step e s = Some s'"
    and nc: "list_all (\<lambda>res. \<forall>k \<in> K. \<not> carries k res) (inbound [e])" and ts: "''toString'' \<notin> K"
  shows "unanswered fut K s'"
proof (cases e)
  case Open
  then show ?thesis using st unanswered_open_socket [OF u] by simp
next
  case (Close reason)
  then show ?thesis using st unanswered_close [OF u, of reason] by simp
next
  case (Send m ps)
  then show ?thesis using st unanswered_send [OF u, of m ps] by simp
next
  case (ListenLive S cb)
  then show ?thesis using st unanswered_listenLive [OF u, of S cb] by simp
next
  case (Kill S)
  then show ?thesis using st unanswered_kill [OF u, of S] by simp
next
  case (WsOpened w)
  then show ?thesis using st unanswered_on_open [OF u, of w] by (simp split: if_splits)
next
  case (WsFailed w)
  then show ?thesis using st unanswered_on_error [OF u, of w] by (simp split: if_splits)
next
  case (WsClosed w)
  then show ?thesis using st unanswered_on_close [OF u, of K] by (simp split: if_splits)
next
  case (WsMessage w res)
  then have "\<forall>k \<in> K. \<not> carries k res" using nc by simp
  from unanswered_deliver_message [OF u this ts] show ?thesis
    using WsMessage st by (simp split: if_splits)
next
  case Timeout
  have "unanswered fut K (s\<lparr>timers := timers s - 1\<rparr>)" using u by (simp add: unanswered_timers)
  from unanswered_open_socket [OF this] show ?thesis
    using Timeout st by (simp split: if_splits)
next
  case (Resume t j)
  then show ?thesis using st unanswered_resume [OF u, of t j s'] by (simp split: if_splits)
qed

lemma inbound_Cons: "inbound (e # es) = inbound [e] @ inbound es"
  by (cases e) simp_all

lemma unanswered_run:
  assumes "unanswered fut K s" "run es s = Some s'"
    "list_all (\<lambda>res. \<forall>k \<in> K. \<not> carries k res) (inbound es)" "''toString'' \<notin> K"
  shows "unanswered fut K s'"
  using assms(1-3)
proof (induction es arbitrary: s)
  case Nil
  then show ?case by simp
next
  case (Cons e es)
  from Cons.prems(2) obtain s1 where s1: "step e s = Some s1" "run es s1 = Some s'"
    by (auto split: option.splits)
  have l: "list_all (\<lambda>res. \<forall>k \<in> K. \<not> carries k res) (inbound [e])"
    "list_all (\<lambda>res. \<forall>k \<in> K. \<not> carries k res) (inbound es)"
    using Cons.prems(3) inbound_Cons [of e es] by simp_all
  have "unanswered fut K s1" using Cons.prems(1) s1(1) l(1) assms(4) by (rule unanswered_step)
  then show ?case using s1(2) l(2) by (rule Cons.IH)
qed

text \<open>A promise that no entry of the map refers to stays pending, whatever happens.\<close>

lemma unregistered_run:
  assumes "unanswered fut {} s" "run es s = Some s'"
  shows "promises s' (ReplyP fut) = None"
proof -
  have "list_all (\<lambda>res. \<forall>k \<in> {}. \<not> carries k res) (inbound es)"
    by (simp add: list_all_iff)
  with assms have "unanswered fut {} s'" by (rule unanswered_run) simp
  then show ?thesis by (simp add: unanswered_def)
qed



lemma queue_keeps:
  "queue (close reason s) = queue s" "queue (open_socket s) = queue s"
  "queue (on_open w s) = queue s" "queue (on_error w s) = queue s"
  "queue (send m ps s) = queue s" "queue (snd (listenLive S cb s)) = queue s"
  "queue (snd (kill S s)) = queue s"
  by (simp_all add: close_def open_socket_def on_open_def on_error_def send_def listenLive_def
        listenLive_replay_def kill_def kill_send_def Let_def park_def call_hook_def emit_def
        settle_def split: option.splits)

lemma queue_resume:
  assumes "resume t j s = Some s'" "\<forall>r fut m ps. t = SendAwaitReady r fut m ps \<longrightarrow> digits j \<noteq> k"
  shows "queue s' k = queue s k"
proof (cases t)
  case (SendAwaitReady r fut' m ps)
  then have ne: "digits j \<noteq> k" using assms(2) by blast
  have "s' = send_rest fut' m ps j s \<or> s' = settle (ReplyP fut') Rejected s"
    using assms(1) SendAwaitReady by (auto split: option.splits settled.splits)
  then show ?thesis
    using ne by (auto simp: send_rest_def Let_def emit_def settle_def split: option.splits)
next
  case (ListenAwaitAll S)
  then show ?thesis using assms(1) by auto
next
  case (KillAwaitSend S f)
  then show ?thesis using assms(1) by (auto split: option.splits settled.splits)
next
  case (CloseAwaitClosed p)
  then show ?thesis using assms(1) by (auto split: option.splits)
qed

text \<open>
  A pending promise registered under \<open>k\<close> stays pending and registered across an event
  that keeps the entry and delivers no frame carrying \<open>k\<close>.
\<close>

lemma registered_step:
  assumes u: "unanswered fut {k} s" and q: "queue s k = Some fut" and st: "step e s = Some s'"
    and ke: "keeps_entry k e" and nc: "list_all (\<lambda>res. \<not> carries k res) (inbound [e])"
    and ts: "k \<noteq> ''toString''"
  shows "unanswered fut {k} s' \<and> queue s' k = Some fut"
proof -
  have l: "list_all (\<lambda>res. \<forall>k' \<in> {k}. \<not> carries k' res) (inbound [e])"
    using nc by (simp add: list_all_iff)
  have tk: "''toString'' \<notin> {k}" using ts by simp
  have 1: "unanswered fut {k} s'" using u st l tk by (rule unanswered_step)
  have 2: "queue s' k = Some fut"
  proof (cases e)
    case (WsClosed w)
    then show ?thesis using ke by simp
  next
    case (WsMessage w res)
    then have "\<forall>k' \<in> {k}. \<not> carries k' res" using nc by simp
    from unanswered_deliver_message [OF u this tk] have "queue (deliver_message res s) k = queue s k"
      by simp
    then show ?thesis using WsMessage st q by (simp split: if_splits)
  next
    case (Resume t j)
    have "\<forall>r f m ps. t = SendAwaitReady r f m ps \<longrightarrow> digits j \<noteq> k"
      using ke Resume by auto
    moreover have "resume t j (s\<lparr>tasks := remove1 t (tasks s)\<rparr>) = Some s'"
      using st Resume by (simp split: if_splits)
    ultimately have "queue s' k = queue (s\<lparr>tasks := remove1 t (tasks s)\<rparr>) k"
      by (rule queue_resume [rotated])
    then show ?thesis using q by simp
  next
    case Timeout
    then show ?thesis using st q by (auto simp: queue_keeps split: if_splits)
  qed (use st q in \<open>auto simp: queue_keeps split: if_splits\<close>)
  from 1 2 show ?thesis by blast
qed

text \<open>A settled promise stays as it is.\<close>

lemma promises_deliver_message_settled:
  "promises s p = Some v \<Longrightarrow> promises (deliver_message res s) p = Some v"
  using deliver_message_effect [of res s] by (auto simp: settle_def)

lemma settled_resume:
  assumes "promises s (ReplyP fut) = Some v" "fut < fresh s" "resume t j s = Some s'"
  shows "promises s' (ReplyP fut) = Some v \<and> fut < fresh s'"
proof (cases t)
  case (SendAwaitReady r fut' m ps)
  have "s' = send_rest fut' m ps j s \<or> s' = settle (ReplyP fut') Rejected s"
    using assms(3) SendAwaitReady by (auto split: option.splits settled.splits)
  then show ?thesis
    using assms(1,2) by (auto simp: send_rest_def Let_def emit_def settle_def split: option.splits)
next
  case (ListenAwaitAll S)
  then show ?thesis using assms by auto
next
  case (KillAwaitSend S f)
  then show ?thesis using assms by (auto split: option.splits settled.splits)
next
  case (CloseAwaitClosed p)
  then show ?thesis using assms by (auto split: option.splits)
qed

lemma settled_close:
  "promises s (ReplyP fut) = Some v \<Longrightarrow> fut < fresh s \<Longrightarrow>
   promises (close reason s) (ReplyP fut) = Some v \<and> fut < fresh (close reason s)"
  by (auto simp: close_def Let_def park_def call_hook_def emit_def split: option.splits)

lemma settled_open_socket:
  assumes "promises s (ReplyP fut) = Some v" "fut < fresh s"
  shows "promises (open_socket s) (ReplyP fut) = Some v \<and> fut < fresh (open_socket s)"
  using settled_close [OF assms, of 1000]
  by (auto simp: open_socket_def Let_def emit_def)

lemma settled_step:
  assumes "promises s (ReplyP fut) = Some v" "fut < fresh s" "step e s = Some s'"
  shows "promises s' (ReplyP fut) = Some v \<and> fut < fresh s'"
proof (cases e)
  case Open
  then show ?thesis using assms(3) settled_open_socket [OF assms(1,2)] by simp
next
  case (Close reason)
  then show ?thesis using assms(3) settled_close [OF assms(1,2), of reason] by simp
next
  case (Send m ps)
  then show ?thesis using assms by (auto simp: send_def park_def)
next
  case (ListenLive S cb)
  then show ?thesis using assms
    by (auto simp: listenLive_def listenLive_replay_def park_def emit_def split: option.splits)
next
  case (Kill S)
  then show ?thesis using assms
    by (auto simp: kill_def kill_send_def send_def park_def emit_def split: option.splits)
next
  case (WsOpened w)
  then show ?thesis using assms
    by (auto simp: on_open_def Let_def call_hook_def emit_def settle_def split: if_splits)
next
  case (WsFailed w)
  then show ?thesis using assms
    by (auto simp: on_error_def Let_def call_hook_def emit_def settle_def split: if_splits)
next
  case (WsClosed w)
  then show ?thesis using assms
    by (auto simp: on_close_def Let_def call_hook_def emit_def settle_def
          split: if_splits option.splits)
next
  case (WsMessage w res)
  then show ?thesis using assms
    by (auto simp: promises_deliver_message_settled deliver_message_keeps split: if_splits)
next
  case Timeout
  have "promises (s\<lparr>timers := timers s - 1\<rparr>) (ReplyP fut) = Some v"
    "fut < fresh (s\<lparr>timers := timers s - 1\<rparr>)"
    using assms(1,2) by simp_all
  from settled_open_socket [OF this] show ?thesis
    using Timeout assms(3) by (simp split: if_splits)
next
  case (Resume t j)
  have "promises (s\<lparr>tasks := remove1 t (tasks s)\<rparr>) (ReplyP fut) = Some v"
    "fut < fresh (s\<lparr>tasks := remove1 t (tasks s)\<rparr>)"
    using assms(1,2) by simp_all
  from settled_resume [OF this, of t j s'] show ?thesis
    using Resume assms(3) by (simp split: if_splits)
qed

lemma settled_run:
  assumes "promises s (ReplyP fut) = Some v" "fut < fresh s" "run es s = Some s'"
  shows "promises s' (ReplyP fut) = Some v"
  using assms
proof (induction es arbitrary: s)
  case Nil
  then show ?case by simp
next
  case (Cons e es)
  from Cons.prems(3) obtain s1 where s1: "step e s = Some s1" "run es s1 = Some s'"
    by (auto split: option.splits)
  from settled_step [OF Cons.prems(1,2) s1(1)] Cons.IH [of s1] s1(2) show ?case by blast
qed

text \<open>
  Along a run that keeps the entry, a registered promise is settled by the first frame
  that carries its identifier, and by nothing else.
\<close>

lemma settles_at_first_match:
  assumes "unanswered fut {k} s" "queue s k = Some fut" "run es s = Some s'"
    "list_all (keeps_entry k) es" "k \<noteq> ''toString''"
  shows "promises s' (ReplyP fut) =
           (case find (carries k) (inbound es) of
              None \<Rightarrow> None
            | Some res \<Rightarrow> Some (Fulfilled (Some res)))"
  using assms(1-4)
proof (induction es arbitrary: s)
  case Nil
  have "promises s (ReplyP fut) = None" using Nil(1) by (simp add: unanswered_def)
  then show ?case using Nil(3) by simp
next
  case (Cons e es)
  from Cons.prems(3) obtain s1 where s1: "step e s = Some s1" "run es s1 = Some s'"
    by (auto split: option.splits)
  have ke: "keeps_entry k e" "list_all (keeps_entry k) es" using Cons.prems(4) by simp_all
  show ?case
  proof (cases "list_all (\<lambda>res. \<not> carries k res) (inbound [e])")
    case True
    from registered_step [OF Cons.prems(1,2) s1(1) ke(1) True assms(5)]
    have "unanswered fut {k} s1" "queue s1 k = Some fut" by simp_all
    then have "promises s' (ReplyP fut) =
           (case find (carries k) (inbound es) of
              None \<Rightarrow> None
            | Some res \<Rightarrow> Some (Fulfilled (Some res)))"
      using s1(2) ke(2) by (rule Cons.IH)
    moreover have "find (carries k) (inbound (e # es)) = find (carries k) (inbound es)"
      using True by (cases e) simp_all
    ultimately show ?thesis by simp
  next
    case False
    then obtain w res where e: "e = WsMessage w res" and c: "carries k res"
      by (cases e) simp_all
    have d: "s1 = deliver_message res s" using s1(1) e by (simp split: if_splits)
    have p: "promises s (ReplyP fut) = None" and f: "fut < fresh s"
      using Cons.prems(1) by (simp_all add: unanswered_def)
    have "promises s1 (ReplyP fut) = Some (Fulfilled (Some res))"
      unfolding d using c Cons.prems(2) p by (rule deliver_reply_fields(1))
    moreover have "fut < fresh s1" unfolding d using f by (simp add: deliver_message_keeps)
    ultimately have "promises s' (ReplyP fut) = Some (Fulfilled (Some res))"
      using s1(2) by (rule settled_run)
    moreover have "find (carries k) (inbound (e # es)) = Some res"
      using e c by simp
    ultimately show ?thesis by simp
  qed
qed

lemma ws_keeps:
  "ws (close reason s) = ws s" "ws (on_open w s) = ws s" "ws (on_error w s) = ws s"
  "ws (on_close s) = ws s" "ws (send m ps s) = ws s" "ws (snd (listenLive S cb s)) = ws s"
  "ws (snd (kill S s)) = ws s"
  by (simp_all add: close_def on_open_def on_error_def on_close_def send_def listenLive_def
        listenLive_replay_def kill_def kill_send_def Let_def park_def call_hook_def emit_def
        settle_def split: option.splits)

lemma ws_open_socket: "\<exists>y. ws (open_socket s) = Some y"
  by (simp add: open_socket_def Let_def emit_def)

lemma ws_resume: "resume t j s = Some s' \<Longrightarrow> ws s' = ws s"
  by (cases t)
     (auto simp: send_rest_def Let_def emit_def settle_def split: option.splits settled.splits)

lemma ws_step: "ws s = Some y \<Longrightarrow> step e s = Some s' \<Longrightarrow> \<exists>y'. ws s' = Some y'"
proof (cases e)
  case (Resume t j)
  assume "ws s = Some y" "step e s = Some s'"
  then show ?thesis
    using Resume ws_resume [of t j "s\<lparr>tasks := remove1 t (tasks s)\<rparr>" s']
    by (auto split: if_splits)
next
  case Open
  assume "ws s = Some y" "step e s = Some s'"
  then show ?thesis using Open ws_open_socket [of s] by auto
next
  case Timeout
  assume "ws s = Some y" "step e s = Some s'"
  then show ?thesis using Timeout ws_open_socket [of "s\<lparr>timers := timers s - 1\<rparr>"]
    by (auto split: if_splits)
qed (auto simp: ws_keeps deliver_message_keeps split: if_splits)

lemma ws_run: "ws s = Some y \<Longrightarrow> run es s = Some s' \<Longrightarrow> \<exists>y'. ws s' = Some y'"
proof (induction es arbitrary: s y)
  case Nil
  then show ?case by simp
next
  case (Cons e es)
  from Cons.prems(2) obtain s1 where s1: "step e s = Some s1" "run es s1 = Some s'"
    by (auto split: option.splits)
  from ws_step [OF Cons.prems(1) s1(1)] obtain y1 where "ws s1 = Some y1" by blast
  then show ?case using s1(2) by (rule Cons.IH)
qed

lemma send_fields:
  "queue (send m ps s) = queue s" "trace (send m ps s) = trace s"
  "tasks (send m ps s) = tasks s @ [SendAwaitReady (ready s) (fresh s) m ps]"
  "promises (send m ps s) (ReplyP (fresh s)) = None" "ready (send m ps s) = ready s"
  by (simp_all add: send_def park_def)

text \<open>A parked \<open>send\<close> whose readiness promise is fulfilled, or that awaits nothing, runs.\<close>

lemma step_resume_send:
  assumes wf: "wf s" and t: "SendAwaitReady r fut m ps \<in> set (tasks s)"
    and r: "r = None \<or> (\<exists>w v. r = Some w \<and> promises s (ReadyP w) = Some (Fulfilled v))"
  shows "\<exists>s2. step (Resume (SendAwaitReady r fut m ps) n) s = Some s2
           \<and> queue s2 = (queue s)(digits n \<mapsto> fut)
           \<and> trace s2 = trace s
                @ (case ws s of None \<Rightarrow> [] | Some w' \<Rightarrow> [WsSend w' (send_frame n m ps)])
           \<and> unanswered fut {digits n} s2"
proof -
  let ?T = "SendAwaitReady r fut m ps"
  let ?s0 = "s\<lparr>tasks := remove1 ?T (tasks s)\<rparr>"
  let ?s2 = "send_rest fut m ps n ?s0"
  have st: "step (Resume ?T n) s = Some ?s2"
    using t r by auto
  have f: "fut \<in> set (send_futures (tasks s))" using t by (rule send_futures_mem)
  then have p: "fut < fresh s" "promises s (ReplyP fut) = None" "\<forall>k. queue s k \<noteq> Some fut"
    using wf by (simp_all add: wf_def)
  have "distinct (send_futures (tasks s))" using wf by (simp add: wf_def)
  then have gone: "fut \<notin> set (send_futures (remove1 ?T (tasks s)))"
    using t by (rule send_futures_remove1_self)
  have q: "queue ?s2 = (queue s)(digits n \<mapsto> fut)"
    by (simp add: send_rest_def Let_def emit_def split: option.splits)
  have tr: "trace ?s2 = trace s
                @ (case ws s of None \<Rightarrow> [] | Some w' \<Rightarrow> [WsSend w' (send_frame n m ps)])"
    by (simp add: send_rest_def Let_def emit_def split: option.splits)
  have u: "unanswered fut {digits n} ?s2"
    using p gone
    by (simp add: unanswered_def send_rest_def Let_def emit_def split: option.splits)
  from st q tr u show ?thesis by blast
qed

text \<open>A parked \<open>send\<close> whose readiness promise is rejected rejects its own promise.\<close>

lemma step_resume_send_rejected:
  assumes wf: "wf s" and t: "SendAwaitReady (Some w) fut m ps \<in> set (tasks s)"
    and r: "promises s (ReadyP w) = Some Rejected"
  shows "\<exists>s2. step (Resume (SendAwaitReady (Some w) fut m ps) n) s = Some s2
           \<and> queue s2 = queue s \<and> trace s2 = trace s
           \<and> promises s2 (ReplyP fut) = Some Rejected"
proof -
  have f: "fut \<in> set (send_futures (tasks s))" using t by (rule send_futures_mem)
  then have p: "promises s (ReplyP fut) = None" using wf by (simp add: wf_def)
  show ?thesis using t r p by (simp add: settle_def)
qed


section \<open>Sending a request\<close>

lemma registered_run:
  assumes "unanswered fut {k} s" "queue s k = Some fut" "run es s = Some s'"
    "list_all (keeps_entry k) es" "list_all (\<lambda>res. \<not> carries k res) (inbound es)"
    "k \<noteq> ''toString''"
  shows "unanswered fut {k} s' \<and> queue s' k = Some fut"
  using assms(1-5)
proof (induction es arbitrary: s)
  case Nil
  then show ?case by simp
next
  case (Cons e es)
  from Cons.prems(3) obtain s1 where s1: "step e s = Some s1" "run es s1 = Some s'"
    by (auto split: option.splits)
  have ke: "keeps_entry k e" "list_all (keeps_entry k) es" using Cons.prems(4) by simp_all
  have l: "list_all (\<lambda>res. \<not> carries k res) (inbound [e])"
    "list_all (\<lambda>res. \<not> carries k res) (inbound es)"
    using Cons.prems(5) inbound_Cons [of e es] by simp_all
  from registered_step [OF Cons.prems(1,2) s1(1) ke(1) l(1) assms(6)]
  have "unanswered fut {k} s1" "queue s1 k = Some fut" by simp_all
  then show ?case using s1(2) ke(2) l(2) by (rule Cons.IH)
qed

text \<open>Once a close event has emptied the map, a pending promise stays pending.\<close>

lemma forgotten_after_close:
  assumes "unanswered fut K s" "step (WsClosed w) s = Some s1" "run es s1 = Some s'"
  shows "promises s' (ReplyP fut) = None"
proof -
  have "s1 = on_close s" using assms(2) by (simp split: if_splits)
  then have "unanswered fut {} s1" using assms(1) by (simp add: unanswered_on_close)
  then show ?thesis using assms(3) by (rule unregistered_run)
qed

lemma digits_7: "digits 7 = ''7''"
  by (simp add: digits.simps)


lemma demo_connecting_fields:
  "run [Open] (SurrealSocket ''ws://db:8000'' {OnClose, OnError}) = Some demo_connecting"
  "ready demo_connecting = Some 1" "fresh demo_connecting = 2"
  "promises (send ''ping'' [] demo_connecting) (ReadyP 1) = None"
  by (simp_all add: demo_connecting_def demo_new_def ops)

lemma demo_sent_fields:
  "run [WsOpened 1] (send ''ping'' [] demo_connecting) = Some demo_sent"
  "SendAwaitReady (Some 1) 2 ''ping'' [] \<in> set (tasks demo_sent)"
  "promises demo_sent (ReadyP 1) = Some (Fulfilled None)"
  "ws demo_sent = Some 1"
  "step (Resume (SendAwaitReady (Some 1) 2 ''ping'' []) 7) demo_sent = Some demo_registered"
  by (simp_all add: demo_registered_def demo_sent_def demo_connecting_def demo_new_def ops)

lemma demo_failed_fields:
  "run [WsFailed 1] (send ''ping'' [] demo_connecting) = Some demo_failed"
  "SendAwaitReady (Some 1) 2 ''ping'' [] \<in> set (tasks demo_failed)"
  "promises demo_failed (ReadyP 1) = Some Rejected"
  "queue demo_failed = Map.empty"
  by (simp_all add: demo_failed_def demo_connecting_def demo_new_def ops)

lemma demo_registered_fields:
  "queue demo_registered = (queue demo_sent)(''7'' \<mapsto> 2)"
  "new_effects demo_sent demo_registered =
     [WsSend 1 (JObj [(''id'', JStr ''7''), (''method'', JStr ''ping''), (''params'', JArr [])])]"
  "resolved demo_registered (Suc 0) = Some True"
  "step (WsClosed 1) demo_registered = Some (on_close demo_registered)"
  "run [Timeout, WsOpened 4, WsMessage 4 demo_reply] (on_close demo_registered) = Some demo_lost"
  by (simp_all add: demo_lost_def demo_registered_def demo_sent_def demo_connecting_def
        demo_new_def ops send_rest_def digits_7 new_effects_def)

lemma demo_replies:
  "run [WsMessage 1 (JObj [(''id'', JStr ''8''), (''result'', JNull)]), WsMessage 1 demo_reply]
     demo_registered
   = Some (deliver_message demo_reply
             (deliver_message (JObj [(''id'', JStr ''8''), (''result'', JNull)]) demo_registered))"
  "list_all (keeps_entry ''7'')
     [WsMessage 1 (JObj [(''id'', JStr ''8''), (''result'', JNull)]), WsMessage 1 demo_reply]"
  "find (carries ''7'')
     (inbound [WsMessage 1 (JObj [(''id'', JStr ''8''), (''result'', JNull)]),
               WsMessage 1 demo_reply])
   = Some demo_reply"
  "carries ''7'' demo_reply"
  by (simp_all add: demo_registered_fields deliver_message_keeps carries_def demo_reply_def)

text \<open>
  C3, as amended.  Take a state reached from a new socket in which \<open>open\<close> has been
  called, so that \<open>ready\<close> is the readiness promise of transport \<open>w\<close>.  The call of \<open>send\<close>
  registers nothing and writes nothing; it parks on the readiness promise.  While that
  promise is pending the parked call cannot continue, in any state.  Whatever happens in
  between: if the promise has been rejected, the parked call continues by rejecting the
  promise it handed out, and registers and writes nothing; if it has been fulfilled, the
  parked call continues by adding exactly the entry for the generated identifier to the
  pending-request map and writing the frame \<^verbatim>\<open>{id, method, params}\<close> to the current
  transport, and nothing else.  From then on, along every run of events that keeps the
  entry, the promise is settled exactly if an inbound frame carried the identifier, with
  the first such frame, wherever the replies to other requests stand.  If a transport
  closes before such a frame has arrived, the promise stays pending for ever, whatever
  frames arrive afterwards.
\<close>

theorem send_awaits_registers_and_settles:
  "run pre (SurrealSocket u hs) = Some s \<Longrightarrow> ready s = Some w \<Longrightarrow>
     queue (send m ps s) = queue s
     \<and> trace (send m ps s) = trace s
     \<and> tasks (send m ps s) = tasks s @ [SendAwaitReady (Some w) (fresh s) m ps]
     \<and> (promises s' (ReadyP w) = None \<longrightarrow>
          step (Resume (SendAwaitReady (Some w) (fresh s) m ps) n) s' = None)
     \<and> (run mid (send m ps s) = Some sm
          \<and> SendAwaitReady (Some w) (fresh s) m ps \<in> set (tasks sm) \<longrightarrow>
          (promises sm (ReadyP w) = Some Rejected \<longrightarrow>
             (\<exists>s2. step (Resume (SendAwaitReady (Some w) (fresh s) m ps) n) sm = Some s2
                \<and> queue s2 = queue sm
                \<and> trace s2 = trace sm
                \<and> promises s2 (ReplyP (fresh s)) = Some Rejected))
          \<and> (promises sm (ReadyP w) = Some (Fulfilled v) \<longrightarrow>
             (\<exists>w' s2. ws sm = Some w'
                \<and> step (Resume (SendAwaitReady (Some w) (fresh s) m ps) n) sm = Some s2
                \<and> queue s2 = (queue sm)(digits n \<mapsto> fresh s)
                \<and> new_effects sm s2 =
                    [WsSend w' (JObj [(''id'', JStr (digits n)), (''method'', JStr m),
                                      (''params'', JArr ps)])]
                \<and> (run es s2 = Some sr \<and> list_all (keeps_entry (digits n)) es \<longrightarrow>
                     promises sr (ReplyP (fresh s)) =
                       (case find (carries (digits n)) (inbound es) of
                          None \<Rightarrow> None
                        | Some res \<Rightarrow> Some (Fulfilled (Some res))))
                \<and> (run es s2 = Some sr \<and> list_all (keeps_entry (digits n)) es
                     \<and> find (carries (digits n)) (inbound es) = None
                     \<and> step (WsClosed wc) sr = Some sc \<and> run es' sc = Some sl \<longrightarrow>
                     promises sl (ReplyP (fresh s)) = None))))"
proof -
  assume r: "run pre (SurrealSocket u hs) = Some s" and rd: "ready s = Some w"
  let ?T = "SendAwaitReady (Some w) (fresh s) m ps"
  let ?k = "digits n"
  let ?fr = "JObj [(''id'', JStr (digits n)), (''method'', JStr m), (''params'', JArr ps)]"
  have fr: "send_frame n m ps = ?fr" by (simp add: send_frame_def)
  have ts: "?k \<noteq> ''toString''" by (rule digits_not_toString)
  from r have wfs: "wf s" by (rule wf_reachable)
  then have wss: "ws s = Some w" using rd by (simp add: wf_def)
  have a: "queue (send m ps s) = queue s" "trace (send m ps s) = trace s"
    "tasks (send m ps s) = tasks s @ [?T]"
    by (simp_all add: send_fields rd)
  have b: "promises s' (ReadyP w) = None \<longrightarrow> step (Resume ?T n) s' = None"
    by simp
  have wf1: "wf sm" if "run mid (send m ps s) = Some sm"
  proof -
    have "wf (send m ps s)" using wfs by (rule wf_send)
    then show ?thesis using that by (rule wf_run)
  qed
  have c: "\<exists>s2. step (Resume ?T n) sm = Some s2 \<and> queue s2 = queue sm \<and> trace s2 = trace sm
                \<and> promises s2 (ReplyP (fresh s)) = Some Rejected"
    if h: "run mid (send m ps s) = Some sm" "?T \<in> set (tasks sm)"
      "promises sm (ReadyP w) = Some Rejected"
    using wf1 [OF h(1)] h(2,3) by (rule step_resume_send_rejected)
  have d: "\<exists>w' s2. ws sm = Some w'
             \<and> step (Resume ?T n) sm = Some s2
             \<and> queue s2 = (queue sm)(?k \<mapsto> fresh s)
             \<and> new_effects sm s2 = [WsSend w' ?fr]
             \<and> (run es s2 = Some sr \<and> list_all (keeps_entry ?k) es \<longrightarrow>
                  promises sr (ReplyP (fresh s)) =
                    (case find (carries ?k) (inbound es) of
                       None \<Rightarrow> None
                     | Some res \<Rightarrow> Some (Fulfilled (Some res))))
             \<and> (run es s2 = Some sr \<and> list_all (keeps_entry ?k) es
                  \<and> find (carries ?k) (inbound es) = None
                  \<and> step (WsClosed wc) sr = Some sc \<and> run es' sc = Some sl \<longrightarrow>
                  promises sl (ReplyP (fresh s)) = None)"
    if h: "run mid (send m ps s) = Some sm" "?T \<in> set (tasks sm)"
      "promises sm (ReadyP w) = Some (Fulfilled v)"
  proof -
    have "ws (send m ps s) = Some w" using wss by (simp add: ws_keeps)
    from ws_run [OF this h(1)] obtain w' where w': "ws sm = Some w'" by blast
    have "Some w = None \<or> (\<exists>x v. Some w = Some x \<and> promises sm (ReadyP x) = Some (Fulfilled v))"
      using h(3) by simp
    from step_resume_send [OF wf1 [OF h(1)] h(2) this, of n] obtain s2 where
      s2: "step (Resume ?T n) sm = Some s2" "queue s2 = (queue sm)(?k \<mapsto> fresh s)"
        "trace s2 = trace sm
           @ (case ws sm of None \<Rightarrow> [] | Some w' \<Rightarrow> [WsSend w' (send_frame n m ps)])"
        "unanswered (fresh s) {?k} s2"
      by blast
    have ne: "new_effects sm s2 = [WsSend w' ?fr]"
      by (rule new_effects_append) (simp add: s2(3) w' fr)
    have q: "queue s2 ?k = Some (fresh s)" by (simp add: s2(2))
    have e1: "promises sr (ReplyP (fresh s)) =
                    (case find (carries ?k) (inbound es) of
                       None \<Rightarrow> None
                     | Some res \<Rightarrow> Some (Fulfilled (Some res)))"
      if "run es s2 = Some sr" "list_all (keeps_entry ?k) es"
      using s2(4) q that ts by (rule settles_at_first_match)
    have e2: "promises sl (ReplyP (fresh s)) = None"
      if g: "run es s2 = Some sr" "list_all (keeps_entry ?k) es"
        "find (carries ?k) (inbound es) = None"
        "step (WsClosed wc) sr = Some sc" "run es' sc = Some sl"
    proof -
      have "list_all (\<lambda>res. \<not> carries ?k res) (inbound es)"
        using g(3) by (simp add: find_None_iff list_all_iff)
      from registered_run [OF s2(4) q g(1,2) this ts] have "unanswered (fresh s) {?k} sr"
        by simp
      then show ?thesis using g(4,5) by (rule forgotten_after_close)
    qed
    have e1': "run es s2 = Some sr \<and> list_all (keeps_entry ?k) es \<longrightarrow>
                  promises sr (ReplyP (fresh s)) =
                    (case find (carries ?k) (inbound es) of
                       None \<Rightarrow> None
                     | Some res \<Rightarrow> Some (Fulfilled (Some res)))"
      using e1 by blast
    have e2': "run es s2 = Some sr \<and> list_all (keeps_entry ?k) es
                  \<and> find (carries ?k) (inbound es) = None
                  \<and> step (WsClosed wc) sr = Some sc \<and> run es' sc = Some sl \<longrightarrow>
                  promises sl (ReplyP (fresh s)) = None"
      using e2 by blast
    show ?thesis
    proof (rule exI [of _ w'], rule exI [of _ s2], intro conjI)
      show "ws sm = Some w'" by (rule w')
      show "step (Resume ?T n) sm = Some s2" by (rule s2(1))
      show "queue s2 = (queue sm)(?k \<mapsto> fresh s)" by (rule s2(2))
      show "new_effects sm s2 = [WsSend w' ?fr]" by (rule ne)
      show "run es s2 = Some sr \<and> list_all (keeps_entry ?k) es \<longrightarrow>
                  promises sr (ReplyP (fresh s)) =
                    (case find (carries ?k) (inbound es) of
                       None \<Rightarrow> None
                     | Some res \<Rightarrow> Some (Fulfilled (Some res)))"
        by (rule e1')
      show "run es s2 = Some sr \<and> list_all (keeps_entry ?k) es
                  \<and> find (carries ?k) (inbound es) = None
                  \<and> step (WsClosed wc) sr = Some sc \<and> run es' sc = Some sl \<longrightarrow>
                  promises sl (ReplyP (fresh s)) = None"
        by (rule e2')
    qed
  qed
  from a b c d show ?thesis by blast
qed


theorem send_awaits_registers_and_settles_witness:
  "run [Open] (SurrealSocket ''ws://db:8000'' {OnClose, OnError}) = Some demo_connecting
   \<and> ready demo_connecting = Some 1
   \<and> promises (send ''ping'' [] demo_connecting) (ReadyP 1) = None
   \<and> step (Resume (SendAwaitReady (Some 1) 2 ''ping'' []) 7) (send ''ping'' [] demo_connecting)
       = None
   \<and> run [WsFailed 1] (send ''ping'' [] demo_connecting) = Some demo_failed
   \<and> SendAwaitReady (Some 1) 2 ''ping'' [] \<in> set (tasks demo_failed)
   \<and> promises demo_failed (ReadyP 1) = Some Rejected
   \<and> (\<exists>s2. step (Resume (SendAwaitReady (Some 1) 2 ''ping'' []) 7) demo_failed = Some s2
         \<and> queue s2 = queue demo_failed
         \<and> trace s2 = trace demo_failed
         \<and> promises s2 (ReplyP 2) = Some Rejected)
   \<and> run [WsOpened 1] (send ''ping'' [] demo_connecting) = Some demo_sent
   \<and> SendAwaitReady (Some 1) 2 ''ping'' [] \<in> set (tasks demo_sent)
   \<and> promises demo_sent (ReadyP 1) = Some (Fulfilled None)
   \<and> step (Resume (SendAwaitReady (Some 1) 2 ''ping'' []) 7) demo_sent = Some demo_registered
   \<and> queue demo_registered = (queue demo_sent)(''7'' \<mapsto> 2)
   \<and> new_effects demo_sent demo_registered =
       [WsSend 1 (JObj [(''id'', JStr ''7''), (''method'', JStr ''ping''), (''params'', JArr [])])]
   \<and> run [WsMessage 1 (JObj [(''id'', JStr ''8''), (''result'', JNull)]), WsMessage 1 demo_reply]
        demo_registered
       = Some (deliver_message demo_reply
                 (deliver_message (JObj [(''id'', JStr ''8''), (''result'', JNull)])
                    demo_registered))
   \<and> list_all (keeps_entry ''7'')
        [WsMessage 1 (JObj [(''id'', JStr ''8''), (''result'', JNull)]), WsMessage 1 demo_reply]
   \<and> promises
        (deliver_message demo_reply
           (deliver_message (JObj [(''id'', JStr ''8''), (''result'', JNull)]) demo_registered))
        (ReplyP 2)
       = Some (Fulfilled (Some demo_reply))
   \<and> run [] demo_registered = Some demo_registered
   \<and> list_all (keeps_entry ''7'') []
   \<and> find (carries ''7'') (inbound []) = None
   \<and> step (WsClosed 1) demo_registered = Some (on_close demo_registered)
   \<and> run [Timeout, WsOpened 4, WsMessage 4 demo_reply] (on_close demo_registered) = Some demo_lost
   \<and> promises demo_lost (ReplyP 2) = None"
proof -
  let ?T = "SendAwaitReady (Some 1) 2 ''ping'' []"
  let ?f8 = "JObj [(''id'', JStr ''8''), (''result'', JNull)]"
  let ?es = "[WsMessage 1 ?f8, WsMessage 1 demo_reply]"
  let ?sr = "deliver_message demo_reply (deliver_message ?f8 demo_registered)"
  note c = demo_connecting_fields
  note t1 = send_awaits_registers_and_settles
    [where s = demo_connecting and w = 1 and m = "''ping''" and ps = "[]" and n = 7
       and s' = "send ''ping'' [] demo_connecting"
       and mid = "[WsFailed 1]" and sm = demo_failed,
     OF c(1,2), unfolded c(3)]
  note t2 = send_awaits_registers_and_settles
    [where s = demo_connecting and w = 1 and m = "''ping''" and ps = "[]" and n = 7
       and mid = "[WsOpened 1]" and sm = demo_sent and v = None
       and es = ?es and sr = ?sr,
     OF c(1,2), unfolded c(3) digits_7]
  note t3 = send_awaits_registers_and_settles
    [where s = demo_connecting and w = 1 and m = "''ping''" and ps = "[]" and n = 7
       and mid = "[WsOpened 1]" and sm = demo_sent and v = None
       and es = "[]" and sr = demo_registered and wc = 1 and sc = "on_close demo_registered"
       and es' = "[Timeout, WsOpened 4, WsMessage 4 demo_reply]" and sl = demo_lost,
     OF c(1,2), unfolded c(3) digits_7]
  have p: "step (Resume ?T 7) (send ''ping'' [] demo_connecting) = None"
    using t1 c(4) by blast
  have r: "\<exists>s2. step (Resume ?T 7) demo_failed = Some s2
         \<and> queue s2 = queue demo_failed
         \<and> trace s2 = trace demo_failed
         \<and> promises s2 (ReplyP 2) = Some Rejected"
    using t1 demo_failed_fields(1-3) by blast
  from t2 demo_sent_fields(1-3) obtain w' s2 where
    s2: "step (Resume ?T 7) demo_sent = Some s2"
      "run ?es s2 = Some ?sr \<and> list_all (keeps_entry ''7'') ?es \<longrightarrow>
         promises ?sr (ReplyP 2) =
           (case find (carries ''7'') (inbound ?es) of
              None \<Rightarrow> None
            | Some res \<Rightarrow> Some (Fulfilled (Some res)))"
    by blast
  have "s2 = demo_registered" using s2(1) demo_sent_fields(5) by simp
  then have a: "promises ?sr (ReplyP 2) = Some (Fulfilled (Some demo_reply))"
    using s2(2) demo_replies(1,2,3) by simp
  from t3 demo_sent_fields(1-3) obtain w'' s2' where
    s2': "step (Resume ?T 7) demo_sent = Some s2'"
      "run [] s2' = Some demo_registered \<and> list_all (keeps_entry ''7'') []
         \<and> find (carries ''7'') (inbound []) = None
         \<and> step (WsClosed 1) demo_registered = Some (on_close demo_registered)
         \<and> run [Timeout, WsOpened 4, WsMessage 4 demo_reply] (on_close demo_registered)
             = Some demo_lost \<longrightarrow>
       promises demo_lost (ReplyP 2) = None"
    by blast
  have "s2' = demo_registered" using s2'(1) demo_sent_fields(5) by simp
  then have l: "promises demo_lost (ReplyP 2) = None"
    using s2'(2) demo_registered_fields(4,5) by simp
  have e: "run [] demo_registered = Some demo_registered" "list_all (keeps_entry ''7'') []"
    "find (carries ''7'') (inbound []) = None"
    by simp_all
  from c(1,2,4) p demo_failed_fields(1-3) r demo_sent_fields(1-3,5) demo_registered_fields(1,2)
    demo_replies(1,2) a e demo_registered_fields(4,5) l
  show ?thesis by (intro conjI)
qed

text \<open>
  The claim as first stated fails in two places.  When the establishment of the
  connection fails, the promise that \<open>send\<close> handed out is settled, by rejection, with no
  inbound frame at all, and nothing is registered or written.  And a request that was
  registered before its transport closed is forgotten: the reply that arrives on the
  next transport carries its identifier and settles nothing.
\<close>

theorem send_awaits_registers_and_settles_counterexample:
  "run [Open, Send ''ping'' [], WsFailed 1] (SurrealSocket ''ws://db:8000'' {OnClose, OnError})
     = Some demo_failed
   \<and> inbound [Open, Send ''ping'' [], WsFailed 1] = []
   \<and> (\<exists>s2. step (Resume (SendAwaitReady (Some 1) 2 ''ping'' []) 7) demo_failed = Some s2
         \<and> promises s2 (ReplyP 2) = Some Rejected
         \<and> queue s2 = Map.empty
         \<and> new_effects demo_failed s2 = [])
   \<and> run [Open, Send ''ping'' [], WsOpened 1, Resume (SendAwaitReady (Some 1) 2 ''ping'' []) 7,
           WsClosed 1, Timeout, WsOpened 4, WsMessage 4 demo_reply]
        (SurrealSocket ''ws://db:8000'' {OnClose, OnError})
       = Some demo_lost
   \<and> carries ''7'' demo_reply
   \<and> promises demo_lost (ReplyP 2) = None"
proof -
  have a: "run [Open, Send ''ping'' [], WsFailed 1] (SurrealSocket ''ws://db:8000'' {OnClose, OnError})
     = Some demo_failed"
    using demo_connecting_fields(1) demo_failed_fields(1) by (simp del: step.simps(7))
  have b: "\<exists>s2. step (Resume (SendAwaitReady (Some 1) 2 ''ping'' []) 7) demo_failed = Some s2
         \<and> promises s2 (ReplyP 2) = Some Rejected
         \<and> queue s2 = Map.empty
         \<and> new_effects demo_failed s2 = []"
    by (simp add: demo_failed_def demo_connecting_def demo_new_def ops settle_def new_effects_def)
  have c: "run [Open, Send ''ping'' [], WsOpened 1, Resume (SendAwaitReady (Some 1) 2 ''ping'' []) 7,
           WsClosed 1, Timeout, WsOpened 4, WsMessage 4 demo_reply]
        (SurrealSocket ''ws://db:8000'' {OnClose, OnError})
       = Some demo_lost"
    by (simp add: demo_lost_def demo_registered_def demo_sent_def demo_connecting_def
        demo_new_def ops send_rest_def digits_7)
  have u: "unanswered 2 {} (on_open 4 (open_socket ((on_close demo_registered)\<lparr>timers := 0\<rparr>)))"
    by (simp add: unanswered_def demo_registered_def demo_sent_def demo_connecting_def
        demo_new_def ops send_rest_def)
  have "run [WsMessage 4 demo_reply] (on_open 4 (open_socket ((on_close demo_registered)\<lparr>timers := 0\<rparr>)))
        = Some demo_lost"
    by (simp add: demo_lost_def demo_registered_def demo_sent_def demo_connecting_def
        demo_new_def ops send_rest_def)
  with u have d: "promises demo_lost (ReplyP 2) = None" by (rule unregistered_run)
  from a b c demo_replies(4) d show ?thesis by simp
qed


section \<open>A request sent before the first connection\<close>






end
